theory Spec2Isabelle
  imports Complex_Main
begin

section \<open>The notebook's own Python: the synchronisation polling loop\<close>

text \<open>
  The Ithaco example notebook waits for a background sweep with
  \<^verbatim>\<open>
  while data.sync():
      time.sleep(0.1)
  \<close>
  \<open>data.sync\<close> and \<open>time.sleep\<close> belong to the library and to Python: they are
  parameters of the model. A call of \<open>sync\<close> either raises or returns an object whose
  truthiness the \<open>while\<close> tests; both calls may change the state \<open>'d\<close> of the
  dataset and of the world behind it. The loop has no exit of its own, so it is a
  partial function: \<open>None\<close> is the loop that never ends.
\<close>

datatype exn = Exn string

type_synonym 'd sync_op = "'d \<Rightarrow> (exn + bool) \<times> 'd"

partial_function (option) poll :: "'d sync_op \<Rightarrow> ('d \<Rightarrow> 'd) \<Rightarrow> 'd \<Rightarrow> ((exn + unit) \<times> 'd) option" where
  "poll sync sleep d =
     (case sync d of
        (Inl e, d') \<Rightarrow> Some (Inl e, d')
      | (Inr b, d') \<Rightarrow> if b then poll sync sleep (sleep d') else Some (Inr (), d'))"

declare poll.simps [code]

text \<open>The state in which the loop makes its call number \<open>n\<close> of \<open>sync\<close> (counting from 0),
  when every earlier call returned.\<close>

fun before_call :: "'d sync_op \<Rightarrow> ('d \<Rightarrow> 'd) \<Rightarrow> nat \<Rightarrow> 'd \<Rightarrow> 'd" where
  "before_call sync sleep 0 d = d"
| "before_call sync sleep (Suc n) d = before_call sync sleep n (sleep (snd (sync d)))"

text \<open>Call number \<open>n\<close> is reached and returns a falsy value: every earlier call returned a
  truthy one.\<close>

definition falsy_at :: "'d sync_op \<Rightarrow> ('d \<Rightarrow> 'd) \<Rightarrow> 'd \<Rightarrow> nat \<Rightarrow> bool" where
  "falsy_at sync sleep d n \<longleftrightarrow>
     fst (sync (before_call sync sleep n d)) = Inr False \<and>
     (\<forall>k<n. fst (sync (before_call sync sleep k d)) = Inr True)"

text \<open>Call number \<open>n\<close> is the first one that does not return a truthy value: it raises or
  returns a falsy one, and there the loop ends, with \<open>loop_result\<close> of what the call did.\<close>

definition stops_at :: "'d sync_op \<Rightarrow> ('d \<Rightarrow> 'd) \<Rightarrow> 'd \<Rightarrow> nat \<Rightarrow> bool" where
  "stops_at sync sleep d n \<longleftrightarrow>
     fst (sync (before_call sync sleep n d)) \<noteq> Inr True \<and>
     (\<forall>k<n. fst (sync (before_call sync sleep k d)) = Inr True)"

definition loop_result :: "exn + bool \<Rightarrow> exn + unit" where
  "loop_result r = (case r of Inl e \<Rightarrow> Inl e | Inr b \<Rightarrow> Inr ())"

text \<open>A dataset that needs \<open>k\<close> more rounds: \<open>sync\<close> is truthy while the counter is positive.\<close>

definition countdown_sync :: "nat sync_op" where
  "countdown_sync k = (Inr (0 < k), k)"

definition countdown_sleep :: "nat \<Rightarrow> nat" where
  "countdown_sleep k = k - 1"

section \<open>The library's sweep entry point\<close>

text \<open>
  The notebook builds and runs its sweeps with
  \<^verbatim>\<open>qc.Loop(k1.volt[-5:5:1], 0).each(a1.volt, a2.volt).run(location='testsweep', overwrite=True)\<close>.
  \<open>Loop\<close>, the slicing of a parameter and \<open>DataSet\<close> are the library's; the notebook
  holds calls of them and the output they printed. Numbers are rationals here (the
  library's are floating point), \<open>'w\<close> is the state of the instruments.
\<close>

text \<open>Modelled from the spec: the sweep specification \<open>k1.volt[start:stop:step]\<close> of the
  library (its slicing is not in the notebooks). The spec speaks of "one or more instrument
  settings"; the settings are those the notebook's recorded output shows for \<open>[-5:5:1]\<close>,
  the arithmetic sequence from \<open>start\<close> in steps of \<open>step\<close> that stops before \<open>stop\<close>.\<close>

definition slice_values :: "rat \<Rightarrow> rat \<Rightarrow> rat \<Rightarrow> exn + rat list" where
  "slice_values start stop step =
     (if step = 0 then Inl (Exn ''ValueError'')
      else Inr (map (\<lambda>k. start + of_nat k * step) [0 ..< nat \<lceil>(stop - start) / step\<rceil>]))"

text \<open>Modelled from the spec: a parameter that is set ("instrument setting") and a parameter
  that is measured, "named parameters with get/set semantics". A measured parameter may
  return several named values (the notebook's \<open>curr\<close> gives \<open>current\<close> and \<open>volt\<close>).\<close>

record 'w sweep_param =
  sp_name :: string
  sp_set :: "rat \<Rightarrow> 'w \<Rightarrow> 'w"

record 'w meas_param =
  mp_outputs :: "(string \<times> ('w \<Rightarrow> rat \<times> 'w)) list"

text \<open>Modelled from the spec: the \<open>DataSet\<close>, "a persisted collection of named numeric
  arrays" with "a mapping from named arrays to numeric array data", "keyed by a location
  string".\<close>

record dataset =
  location :: string
  arrays :: "(string \<times> rat list) list"

text \<open>Modelled from the spec: the decimal numeral that the library appends to an array name,
  as in the recorded \<open>volt_0\<close> and \<open>volt_1\<close>.\<close>

fun string_of_nat :: "nat \<Rightarrow> string" where
  "string_of_nat n =
     (if n < 10 then [''0123456789'' ! n]
      else string_of_nat (n div 10) @ [''0123456789'' ! (n mod 10)])"

declare string_of_nat.simps [simp del]

text \<open>Modelled from the spec: the names of the measured arrays. The notebook's output shows
  the name of the measured value where it is the only one of that name (\<open>current\<close>,
  \<open>volt\<close>), and the name followed by the position of the parameter in \<open>each(...)\<close> where
  several share it (\<open>volt_0\<close>, \<open>volt_1\<close>).\<close>

definition measured_names :: "'w meas_param list \<Rightarrow> (nat \<times> string) list" where
  "measured_names ps =
     concat (map (\<lambda>(i, p). map (\<lambda>(n, g). (i, n)) (mp_outputs p)) (enumerate 0 ps))"

definition array_ids :: "(nat \<times> string) list \<Rightarrow> string list" where
  "array_ids ins =
     map (\<lambda>(i, n). if count_list (map snd ins) n = 1 then n else n @ ''_'' @ string_of_nat i) ins"

text \<open>Modelled from the spec: one setting of the sweep "records one or more measured
  parameters": every value of every parameter of \<open>each(...)\<close> is read once, in order.\<close>

fun measure_all :: "('w \<Rightarrow> rat \<times> 'w) list \<Rightarrow> 'w \<Rightarrow> rat list \<times> 'w" where
  "measure_all [] w = ([], w)"
| "measure_all (g # gs) w =
     (let (r, w1) = g w; (rs, w2) = measure_all gs w1 in (r # rs, w2))"

text \<open>Modelled from the spec: the sweep, "a parameterized loop over one or more instrument
  settings that records one or more measured parameters at each setting". \<open>cols\<close> are the
  measured arrays filled so far, one per measured value.\<close>

fun sweep_loop ::
  "(rat \<Rightarrow> 'w \<Rightarrow> 'w) \<Rightarrow> ('w \<Rightarrow> rat \<times> 'w) list \<Rightarrow> rat list \<Rightarrow> rat list list \<Rightarrow> 'w
     \<Rightarrow> rat list list \<times> 'w" where
  "sweep_loop set_v gets [] cols w = (cols, w)"
| "sweep_loop set_v gets (v # vs) cols w =
     (let w1 = set_v v w;
          (rs, w2) = measure_all gets w1
      in sweep_loop set_v gets vs (map2 (\<lambda>c r. c @ [r]) cols rs) w2)"

text \<open>Modelled from the spec: \<open>Loop(sweep, delay).each(p1, ..., pn).run(location=loc)\<close>, the
  "sweep-building/execution entry point that accepts a sweep specification and one or more
  measured parameters and produces a persisted dataset keyed by a location string". The
  set-point array is named after the swept parameter (\<open>volt_set\<close>); \<open>disk\<close> is the
  storage, keyed by location. The delay is real time and the spec says nothing of
  \<open>overwrite\<close>: the model always writes, as every call of the notebook asks.\<close>

definition run_loop ::
  "'w sweep_param \<Rightarrow> rat list \<Rightarrow> rat \<Rightarrow> 'w meas_param list \<Rightarrow> string
     \<Rightarrow> (string \<rightharpoonup> dataset) \<Rightarrow> 'w \<Rightarrow> dataset \<times> (string \<rightharpoonup> dataset) \<times> 'w" where
  "run_loop sp settings delay ps loc disk w =
     (let outs = concat (map mp_outputs ps);
          (cols, w') = sweep_loop (sp_set sp) (map snd outs) settings (replicate (length outs) []) w;
          ds = \<lparr>location = loc,
                arrays = (sp_name sp @ ''_set'', settings) # zip (array_ids (measured_names ps)) cols\<rparr>
      in (ds, disk(loc \<mapsto> ds), w'))"

text \<open>The measured arrays of a dataset: all but the set-point array.\<close>

definition measured_arrays :: "dataset \<Rightarrow> (string \<times> rat list) list" where
  "measured_arrays ds = tl (arrays ds)"

text \<open>The notebook's instruments, as far as the sweeps use them: \<open>k1.volt\<close> is set,
  \<open>a1.volt\<close> and \<open>a2.volt\<close> are read; all three are named \<open>volt\<close>. How they act on the
  instruments is the drivers' and is a parameter.\<close>

definition k1_volt :: "(rat \<Rightarrow> 'w \<Rightarrow> 'w) \<Rightarrow> 'w sweep_param" where
  "k1_volt set_v = \<lparr>sp_name = ''volt'', sp_set = set_v\<rparr>"

definition agilent_volt :: "('w \<Rightarrow> rat \<times> 'w) \<Rightarrow> 'w meas_param" where
  "agilent_volt get_v = \<lparr>mp_outputs = [(''volt'', get_v)]\<rparr>"

text \<open>\<^verbatim>\<open>qc.Loop(k1.volt[-5:5:1], 0).each(a1.volt, a2.volt).run(location='testsweep', overwrite=True)\<close>\<close>

definition loop2_cell ::
  "(rat \<Rightarrow> 'w \<Rightarrow> 'w) \<Rightarrow> ('w \<Rightarrow> rat \<times> 'w) \<Rightarrow> ('w \<Rightarrow> rat \<times> 'w) \<Rightarrow> (string \<rightharpoonup> dataset) \<Rightarrow> 'w
     \<Rightarrow> exn + dataset \<times> (string \<rightharpoonup> dataset) \<times> 'w" where
  "loop2_cell k1_set a1_get a2_get disk w =
     (case slice_values (-5) 5 1 of
        Inl e \<Rightarrow> Inl e
      | Inr settings \<Rightarrow>
          Inr (run_loop (k1_volt k1_set) settings 0 [agilent_volt a1_get, agilent_volt a2_get]
                 ''testsweep'' disk w))"

text \<open>What a sweep has to record, said with the parameters alone. \<open>after_readings gets w\<close>
  is the state of the instruments after the values \<open>gets\<close> were read in order from \<open>w\<close>;
  \<open>state_before set_v gets vs w k\<close> is the state when setting number \<open>k\<close> of \<open>vs\<close> is
  about to be made, each earlier setting having been made and all values read after it;
  \<open>reading set_v gets vs w k j\<close> is what value number \<open>j\<close> reads at setting number \<open>k\<close>:
  the instrument has just been set to \<open>vs ! k\<close> and the values before \<open>j\<close> have been
  read. \<open>getters ps\<close> are the values of the parameters of \<open>each(...)\<close>, in order.\<close>

definition after_readings :: "('w \<Rightarrow> rat \<times> 'w) list \<Rightarrow> 'w \<Rightarrow> 'w" where
  "after_readings gets w = foldl (\<lambda>w g. snd (g w)) w gets"

definition state_before ::
  "(rat \<Rightarrow> 'w \<Rightarrow> 'w) \<Rightarrow> ('w \<Rightarrow> rat \<times> 'w) list \<Rightarrow> rat list \<Rightarrow> 'w \<Rightarrow> nat \<Rightarrow> 'w" where
  "state_before set_v gets vs w k =
     foldl (\<lambda>w v. after_readings gets (set_v v w)) w (take k vs)"

definition reading ::
  "(rat \<Rightarrow> 'w \<Rightarrow> 'w) \<Rightarrow> ('w \<Rightarrow> rat \<times> 'w) list \<Rightarrow> rat list \<Rightarrow> 'w \<Rightarrow> nat \<Rightarrow> nat \<Rightarrow> rat" where
  "reading set_v gets vs w k j =
     fst ((gets ! j) (after_readings (take j gets) (set_v (vs ! k) (state_before set_v gets vs w k))))"

definition getters :: "'w meas_param list \<Rightarrow> ('w \<Rightarrow> rat \<times> 'w) list" where
  "getters ps = map snd (concat (map mp_outputs ps))"

text \<open>A sweep to run the definitions on: the state of the instruments is the voltage that was
  last set, one meter reads it inverted and the other doubled.\<close>

definition demo_run :: "dataset \<times> (string \<rightharpoonup> dataset) \<times> rat" where
  "demo_run = run_loop \<lparr>sp_name = ''volt'', sp_set = (\<lambda>v w. v)\<rparr> [1, 2, 3] 0
     [\<lparr>mp_outputs = [(''volt'', \<lambda>w. (- w, w))]\<rparr>, \<lparr>mp_outputs = [(''volt'', \<lambda>w. (2 * w, w))]\<rparr>]
     ''testsweep'' Map.empty 0"

text \<open>The notebook's first sweep, \<open>each(curr)\<close>, on the same instruments: \<open>curr\<close> returns
  two values, named \<open>current\<close> and \<open>volt\<close> in the recorded output.\<close>

definition demo_curr :: "rat meas_param" where
  "demo_curr = \<lparr>mp_outputs = [(''current'', \<lambda>w. (w / 10000, w)), (''volt'', \<lambda>w. (- w, w))]\<rparr>"

definition first_sweep_demo :: "dataset \<times> (string \<rightharpoonup> dataset) \<times> rat" where
  "first_sweep_demo = run_loop \<lparr>sp_name = ''volt'', sp_set = (\<lambda>v w. v)\<rparr>
     [-5, -4, -3, -2, -1, 0, 1, 2, 3, 4] 0 [demo_curr] ''testsweep'' Map.empty 0"

section \<open>The notebook's cells\<close>

text \<open>
  The code cells of the Ithaco notebook are straight-line sequences of library calls, some
  of them inside \<open>with Timer(...)\<close>, two of them followed by the polling loop. The
  notebook defines one class of its own:
  \<^verbatim>\<open>
  class Timer(object):
      def __init__(self, name=None):
          self.name = name
      def __enter__(self):
          self.tstart = time.time()
      def __exit__(self, type, value, traceback):
          if self.name:
              print('[%s]' % self.name,)
          print('Elapsed: %s' % (time.time() - self.tstart))
  \<close>
  The library and the clock are parameters: a library call, made in a state \<open>'l\<close> of the
  library and of the instruments, raises or returns (of the object it returns only the
  truthiness is kept, which the polling loop tests).
\<close>

datatype call_kind = Constructor | Param_set | Param_get | Loop_run | DataSet_sync | Other_call

type_synonym lib_call = "call_kind \<times> string"

datatype line = Name_line string | Elapsed_line rat rat

record 'l env =
  env_lib :: "lib_call \<Rightarrow> 'l \<Rightarrow> (exn + bool) \<times> 'l"
  env_now :: "'l \<Rightarrow> rat"
  env_sleep :: "'l \<Rightarrow> 'l"

text \<open>The state of a running notebook: the state of the library, what was printed, and a
  record of the library calls made so far, each with the exception it raised if it did
  (the record is there to state properties; no code reads it).\<close>

record 'l notebook =
  lib_state :: 'l
  trace :: "(lib_call \<times> exn option) list"
  printed :: "line list"

definition do_call :: "'l env \<Rightarrow> lib_call \<Rightarrow> 'l notebook \<Rightarrow> (exn + bool) \<times> 'l notebook" where
  "do_call env c nb =
     (let (r, l') = env_lib env c (lib_state nb)
      in (r, nb\<lparr>lib_state := l',
                trace := trace nb @ [(c, case r of Inl e \<Rightarrow> Some e | Inr b \<Rightarrow> None)]\<rparr>))"

definition do_sleep :: "'l env \<Rightarrow> 'l notebook \<Rightarrow> 'l notebook" where
  "do_sleep env nb = nb\<lparr>lib_state := env_sleep env (lib_state nb)\<rparr>"

text \<open>\<open>Timer.__enter__\<close> reads the clock; \<open>Timer.__exit__\<close> prints the name if it is
  truthy (neither \<open>None\<close> nor empty), prints the elapsed time, and returns \<open>None\<close>: the
  \<open>False\<close> below is the truthiness of what it returns, which tells \<open>with\<close> whether to
  swallow an exception of the body.\<close>

definition Timer_enter :: "'l env \<Rightarrow> 'l notebook \<Rightarrow> rat" where
  "Timer_enter env nb = env_now env (lib_state nb)"

definition Timer_exit :: "'l env \<Rightarrow> string option \<Rightarrow> rat \<Rightarrow> 'l notebook \<Rightarrow> bool \<times> 'l notebook" where
  "Timer_exit env name tstart nb =
     (let nb1 = (case name of
                   None \<Rightarrow> nb
                 | Some n \<Rightarrow> if n = [] then nb else nb\<lparr>printed := printed nb @ [Name_line n]\<rparr>);
          nb2 = nb1\<lparr>printed := printed nb1 @ [Elapsed_line (env_now env (lib_state nb1)) tstart]\<rparr>
      in (False, nb2))"

text \<open>The statements of the cells. \<open>Poll_sync c\<close> is \<open>while data.sync(): time.sleep(0.1)\<close>
  with \<open>c\<close> the call of \<open>sync\<close>. \<open>Try body handler\<close> is Python's
  \<open>try: body except: handler\<close>, the statement that handles an exception; the notebook
  does not use it, and it is here so that this can be said of the cells. The result of a
  block is \<open>None\<close> when it never ends, and otherwise the exception that leaves it, if one
  does, with the state it leaves.\<close>

datatype stmt =
    Call lib_call
  | With_Timer "string option" "stmt list"
  | Poll_sync lib_call
  | Try "stmt list" "stmt list"

fun exec_stmt :: "'l env \<Rightarrow> stmt \<Rightarrow> 'l notebook \<Rightarrow> (exn option \<times> 'l notebook) option"
  and exec_block :: "'l env \<Rightarrow> stmt list \<Rightarrow> 'l notebook \<Rightarrow> (exn option \<times> 'l notebook) option" where
  "exec_stmt env (Call c) nb =
     (case do_call env c nb of
        (Inl e, nb1) \<Rightarrow> Some (Some e, nb1)
      | (Inr b, nb1) \<Rightarrow> Some (None, nb1))"
| "exec_stmt env (With_Timer name body) nb =
     (let tstart = Timer_enter env nb in
      case exec_block env body nb of
        None \<Rightarrow> None
      | Some (r, nb1) \<Rightarrow>
          (let (swallow, nb2) = Timer_exit env name tstart nb1
           in Some (if swallow then None else r, nb2)))"
| "exec_stmt env (Poll_sync c) nb =
     (case poll (do_call env c) (do_sleep env) nb of
        None \<Rightarrow> None
      | Some (Inl e, nb1) \<Rightarrow> Some (Some e, nb1)
      | Some (Inr u, nb1) \<Rightarrow> Some (None, nb1))"
| "exec_stmt env (Try body handler) nb =
     (case exec_block env body nb of
        None \<Rightarrow> None
      | Some (Some e, nb1) \<Rightarrow> exec_block env handler nb1
      | Some (None, nb1) \<Rightarrow> Some (None, nb1))"
| "exec_block env [] nb = Some (None, nb)"
| "exec_block env (s # ss) nb =
     (case exec_stmt env s nb of
        None \<Rightarrow> None
      | Some (Some e, nb1) \<Rightarrow> Some (Some e, nb1)
      | Some (None, nb1) \<Rightarrow> exec_block env ss nb1)"

text \<open>The code cells of the notebook, in order; a call is named by its text, a nested
  expression gives its calls in the order Python evaluates them.\<close>

definition loop_calls :: "string \<Rightarrow> string \<Rightarrow> stmt list" where
  "loop_calls measured args =
     [Call (Other_call, ''k1.volt[-5:5:1]''),
      Call (Constructor, ''qc.Loop(k1.volt[-5:5:1], 0)''),
      Call (Other_call, ''.each('' @ measured @ '')''),
      Call (Loop_run, ''.run('' @ args @ '')'')]"

definition cell_instruments :: "stmt list" where
  "cell_instruments =
     [Call (Constructor, ''k1 = keith.Keithley_2600(Keithley1, GPIB0::15::INSTR, channel=a)''),
      Call (Constructor, ''k2 = keith.Keithley_2600(Keithley2, GPIB0::15::INSTR, channel=b)''),
      Call (Constructor, ''a1 = agi.Agilent_34400A(Agilent1, GPIB0::11::INSTR)''),
      Call (Constructor, ''a2 = agi.Agilent_34400A(Agilent2, GPIB0::6::INSTR)''),
      Call (Constructor, ''camp = ithaco.Ithaco_1211(camp1)''),
      Call (Param_set, ''camp.sens.set(1e-4)''),
      Call (Constructor, ''curr = ithaco.CurrentParameter(a2.volt, camp)''),
      Call (Param_set, ''a1.NPLC.set(1)''),
      Call (Param_set, ''a2.NPLC.set(1)'')]"

definition cell_snapshot :: "stmt list" where
  "cell_snapshot = [Call (Other_call, ''camp.snapshot()'')]"

definition cell_first_sweep :: "stmt list" where
  "cell_first_sweep =
     loop_calls ''curr'' ''location=testsweep, overwrite=True'' @
     [Call (Constructor, ''plotQ = qc.QtPlot(data.current, windowTitle=YEAH)'')]"

definition cell_sync :: "stmt list" where
  "cell_sync = [Call (DataSet_sync, ''data.sync()'')]"

definition cell_stations :: "stmt list" where
  "cell_stations =
     [Call (Constructor, ''station1 = qc.Station(a1, a2)''),
      Call (Other_call, ''station1.set_measurement(a1.volt)''),
      Call (Constructor, ''station2 = qc.Station(a1, a2)''),
      Call (Other_call, ''station2.set_measurement(a1.volt, a2.volt)'')]"

definition cell_time_stations :: "stmt list" where
  "cell_time_stations =
     [With_Timer (Some ''Time s1'') [Call (Other_call, ''station1.measure()'')],
      With_Timer (Some ''Time s2'') [Call (Other_call, ''station2.measure()'')]]"

definition cell_time_readings :: "stmt list" where
  "cell_time_readings =
     [With_Timer (Some ''Time a1'') [Call (Param_get, ''a1.volt.get()'')],
      With_Timer (Some ''Time a2'') [Call (Param_get, ''a2.volt.get()'')]]"

definition cell_time_loops :: "stmt list" where
  "cell_time_loops =
     [With_Timer (Some ''Time Loop 1'')
        (loop_calls ''a1.volt'' ''location=testsweep, overwrite=True, background=False''),
      With_Timer (Some ''Time Loop 2'')
        (loop_calls ''a1.volt, a2.volt'' ''location=testsweep, overwrite=True, background=False'')]"

definition cell_time_loop1_polled :: "stmt list" where
  "cell_time_loop1_polled =
     [With_Timer (Some ''Time Loop 1'')
        (loop_calls ''a1.volt'' ''location=testsweep, overwrite=True'' @
         [Poll_sync (DataSet_sync, ''data.sync()'')])]"

definition cell_time_loop2_polled :: "stmt list" where
  "cell_time_loop2_polled =
     [With_Timer (Some ''Time Loop 2'')
        (loop_calls ''a1.volt, a2.volt'' ''location=testsweep, overwrite=True'' @
         [Poll_sync (DataSet_sync, ''data.sync()'')])]"

definition notebook_cells :: "stmt list list" where
  "notebook_cells =
     [cell_instruments, cell_snapshot, cell_first_sweep, cell_sync, cell_stations,
      cell_time_stations, cell_time_readings, cell_time_loops, cell_time_loop1_polled,
      cell_time_loop2_polled]"

text \<open>What the calls of a stretch of the record did, when no exception was handled: they
  all returned, but the last one when the stretch ended with an exception, which raised
  it.\<close>

definition unhandled :: "(lib_call \<times> exn option) list \<Rightarrow> exn option \<Rightarrow> bool" where
  "unhandled new r \<longleftrightarrow>
     (\<exists>k. map snd new = replicate k None @ (case r of None \<Rightarrow> [] | Some e \<Rightarrow> [Some e]))"

text \<open>The exception a call's outcome carries, if any.\<close>

definition raised :: "exn + 'a \<Rightarrow> exn option" where
  "raised r = (case r of Inl e \<Rightarrow> Some e | Inr b \<Rightarrow> None)"

text \<open>A statement, or a block, that holds no \<open>try\<close>.\<close>

fun no_handler :: "stmt \<Rightarrow> bool" and no_handler_block :: "stmt list \<Rightarrow> bool" where
  "no_handler (Call c) = True"
| "no_handler (With_Timer name body) = no_handler_block body"
| "no_handler (Poll_sync c) = True"
| "no_handler (Try body handler) = False"
| "no_handler_block [] = True"
| "no_handler_block (s # ss) = (no_handler s \<and> no_handler_block ss)"

text \<open>The library calls written in a block, in order: \<open>Do c\<close> is a call made once,
  \<open>Poll c\<close> the call the polling loop repeats.\<close>

datatype item = Do lib_call | Poll lib_call

fun items_of_stmt :: "stmt \<Rightarrow> item list" and items_of :: "stmt list \<Rightarrow> item list" where
  "items_of_stmt (Call c) = [Do c]"
| "items_of_stmt (With_Timer name body) = items_of body"
| "items_of_stmt (Poll_sync c) = [Poll c]"
| "items_of_stmt (Try body handler) = items_of body @ items_of handler"
| "items_of [] = []"
| "items_of (s # ss) = items_of_stmt s @ items_of ss"

text \<open>What the library does when calls are made one after the other, said with the library
  alone: \<open>lib_after env cs l\<close> is its state after the calls \<open>cs\<close> from the state \<open>l\<close>;
  \<open>all_return env cs l\<close> says that each of them returns; \<open>round_state env c n l\<close> is the
  state in which the polling loop makes its call number \<open>n\<close> of \<open>c\<close> (counting from 0),
  every earlier call having been followed by \<open>time.sleep\<close>.\<close>

definition lib_after :: "'l env \<Rightarrow> lib_call list \<Rightarrow> 'l \<Rightarrow> 'l" where
  "lib_after env cs l = foldl (\<lambda>l c. snd (env_lib env c l)) l cs"

definition all_return :: "'l env \<Rightarrow> lib_call list \<Rightarrow> 'l \<Rightarrow> bool" where
  "all_return env cs l \<longleftrightarrow>
     (\<forall>k<length cs. raised (fst (env_lib env (cs ! k) (lib_after env (take k cs) l))) = None)"

fun round_state :: "'l env \<Rightarrow> lib_call \<Rightarrow> nat \<Rightarrow> 'l \<Rightarrow> 'l" where
  "round_state env c 0 l = l"
| "round_state env c (Suc n) l = round_state env c n (env_sleep env (snd (env_lib env c l)))"

text \<open>The run of a list of calls on the library alone, with the record of the calls: a call
  that raises ends the run. It is what a block would do if it were nothing but its calls.\<close>

definition bare_call ::
  "'l env \<Rightarrow> lib_call \<Rightarrow> 'l \<times> (lib_call \<times> exn option) list
     \<Rightarrow> (exn + bool) \<times> 'l \<times> (lib_call \<times> exn option) list" where
  "bare_call env c st =
     (let (r, l') = env_lib env c (fst st) in (r, l', snd st @ [(c, raised r)]))"

definition bare_sleep ::
  "'l env \<Rightarrow> 'l \<times> (lib_call \<times> exn option) list \<Rightarrow> 'l \<times> (lib_call \<times> exn option) list" where
  "bare_sleep env st = (env_sleep env (fst st), snd st)"

fun lib_run ::
  "'l env \<Rightarrow> item list \<Rightarrow> 'l \<times> (lib_call \<times> exn option) list
     \<Rightarrow> (exn option \<times> 'l \<times> (lib_call \<times> exn option) list) option" where
  "lib_run env [] st = Some (None, st)"
| "lib_run env (Do c # rest) st =
     (case bare_call env c st of
        (Inl e, st1) \<Rightarrow> Some (Some e, st1)
      | (Inr b, st1) \<Rightarrow> lib_run env rest st1)"
| "lib_run env (Poll c # rest) st =
     (case poll (bare_call env c) (bare_sleep env) st of
        None \<Rightarrow> None
      | Some (Inl e, st1) \<Rightarrow> Some (Some e, st1)
      | Some (Inr u, st1) \<Rightarrow> lib_run env rest st1)"

text \<open>What the bare run can see of a notebook: the state of the library and the record of
  the calls.\<close>

definition seen :: "'l notebook \<Rightarrow> 'l \<times> (lib_call \<times> exn option) list" where
  "seen nb = (lib_state nb, trace nb)"

text \<open>A library in which the call of \<open>run\<close> raises and every other call returns; the state
  counts the calls, the clock shows that count.\<close>

definition failing_run_env :: "nat env" where
  "failing_run_env =
     \<lparr>env_lib = (\<lambda>c l. (if fst c = Loop_run then Inl (Exn ''VisaIOError'') else Inr True, Suc l)),
      env_now = (\<lambda>l. of_nat l),
      env_sleep = (\<lambda>l. l)\<rparr>"

text \<open>A library in which \<open>data.sync()\<close> raises once six calls have been made, and
  returns a truthy value before that, as every other call does.\<close>

definition failing_sync_env :: "nat env" where
  "failing_sync_env =
     \<lparr>env_lib = (\<lambda>c l. (if fst c = DataSet_sync \<and> 6 \<le> l then Inl (Exn ''TimeoutError'')
                          else Inr True, Suc l)),
      env_now = (\<lambda>l. of_nat l),
      env_sleep = (\<lambda>l. l)\<rparr>"

definition fresh_notebook :: "nat notebook" where
  "fresh_notebook = \<lparr>lib_state = 0, trace = [], printed = []\<rparr>"

section \<open>The widget script\<close>

text \<open>
  The first output of the notebook is the script of the library's notebook widgets: three
  views, \<open>UpdateView\<close> and its extensions \<open>HiddenUpdateView\<close> and \<open>SubprocessView\<close>.
  The model below follows the script function by function. What belongs to the browser
  and to the widget framework is state: the interval timers, the messages sent to the
  kernel, the size of the window, the document, the widget model the view reads
  (\<open>_message\<close>, \<open>interval\<close>, \<open>_processes\<close>, \<open>comm_live\<close>). JavaScript numbers are
  rationals or integers here, pixel sizes are integers. Scroll positions and the two
  globals \<open>window.MYWIDGET\<close> and \<open>window.SPVIEW\<close> are left out: nothing else reads them.
\<close>

subsection \<open>Strings\<close>

text \<open>\<open>s.indexOf(sub)\<close>: the first position of \<open>sub\<close> in \<open>s\<close>, or \<open>-1\<close>.\<close>

fun index_from :: "string \<Rightarrow> string \<Rightarrow> nat \<Rightarrow> int" where
  "index_from sub [] i = (if sub = [] then int i else - 1)"
| "index_from sub (c # s) i =
     (if take (length sub) (c # s) = sub then int i else index_from sub s (Suc i))"

definition indexOf :: "string \<Rightarrow> string \<Rightarrow> int" where
  "indexOf s sub = index_from sub s 0"

text \<open>\<open>s.substr(start)\<close>: from \<open>start\<close> to the end; a negative \<open>start\<close> counts from the
  end of the string.\<close>

definition substr :: "string \<Rightarrow> int \<Rightarrow> string" where
  "substr s start =
     (if start < 0 then drop (nat (max 0 (int (length s) + start))) s else drop (nat start) s)"

text \<open>\<open>s.split(sep)\<close> for a separator of one character: never empty.\<close>

fun split_char :: "char \<Rightarrow> string \<Rightarrow> string list" where
  "split_char sep [] = [[]]"
| "split_char sep (c # s) =
     (if c = sep then [] # split_char sep s
      else (case split_char sep s of
              [] \<Rightarrow> [[c]]
            | x # xs \<Rightarrow> (c # x) # xs))"

text \<open>\<^verbatim>\<open>this.className.substr(this.className.indexOf('qcodes')).split('-')[1].split(' ')[0]\<close>:
  element 1 of the first split is \<open>undefined\<close> when there is none, and the call of
  \<open>split\<close> on it a \<open>TypeError\<close>.\<close>

definition state_of_class :: "string \<Rightarrow> exn + string" where
  "state_of_class className =
     (case split_char CHR ''-'' (substr className (indexOf className ''qcodes'')) of
        a # b # rest \<Rightarrow> (case split_char CHR '' '' b of
                          [] \<Rightarrow> Inl (Exn ''TypeError'')
                        | x # xs \<Rightarrow> Inr x)
      | _ \<Rightarrow> Inl (Exn ''TypeError''))"

subsection \<open>State\<close>

datatype view_class = UpdateView | HiddenUpdateView | SubprocessView

datatype message = Myupdate | Abort

datatype parent = Detached | Widget_area | Body

text \<open>The delay of a timer is a product of two numbers that the script computes in
  JavaScript's double arithmetic, \<open>me._interval * 1000\<close>; the model keeps the product
  as it is written and does not compute it. What \<open>append\<close> adds to an element are the
  nodes jQuery makes of a string, which it reads as HTML where the string holds markup
  and as text where it holds none; the model keeps the string.\<close>

datatype delay = Times rat rat

datatype nodes = Html string

text \<open>The three buttons of class \<open>js-state\<close> that \<open>SubprocessView.render\<close> creates.\<close>

datatype button = Minimized_button | Docked_button | Floated_button

fun className :: "button \<Rightarrow> string" where
  "className Minimized_button = ''btn js-state qcodes-minimized''"
| "className Docked_button = ''btn js-state qcodes-docked''"
| "className Floated_button = ''btn js-state qcodes-floated''"

record widget =
  view_class :: view_class
  v_interval :: rat
  v_updater :: "nat option"
  m_message :: string
  m_interval :: rat
  m_processes :: string
  comm_live :: bool
  timers :: "(nat \<times> delay) list"
  next_timer :: nat
  sent :: "message list"
  console :: "string list"
  inner_width :: int
  inner_height :: int
  others :: "(nat \<times> string list) list"
  el_parent :: parent
  el_classes :: "string list"
  qcodes_state :: "string option"
  el_left :: "int option"
  el_top :: "int option"
  el_width :: int
  el_height :: int
  layout_left :: int
  layout_top :: int
  draggable :: bool
  hidden :: bool
  inner_html :: string
  output_area :: "nodes list"
  clear_disabled :: bool
  abort_disabled :: bool
  subprocess_list :: string

text \<open>
  \<open>v_interval\<close> and \<open>v_updater\<close> are the view's \<open>_interval\<close> and \<open>_updater\<close> (\<open>None\<close>:
  \<open>undefined\<close>). \<open>timers\<close> are the interval timers that are running, each with its
  delay in milliseconds; \<open>next_timer\<close> is the identifier the browser gives the next one.
  \<open>others\<close> are the elements of the document other than the view's own, each with its
  classes (the document is flat here). The \<open>el_\<close> fields describe the view's element
  \<open>$el\<close>: its parent (none while the element is outside the document; the framework
  puts it into the widget area, "some other bit of code resets the parent after render",
  and the click handler moves it to \<open>body\<close>), its classes, its attribute
  \<open>qcodes-state\<close>, its inline \<open>left\<close> and
  \<open>top\<close> (\<open>None\<close>: not set), its size, and where the style sheet puts it when \<open>left\<close>
  and \<open>top\<close> are not set. \<open>output_area\<close> is the content of the \<open>pre\<close> of the panel, what was
  appended to it in order, \<open>inner_html\<close> the string last assigned to \<open>innerHTML\<close>,
  \<open>clear_disabled\<close> and \<open>abort_disabled\<close> say whether the two buttons carry the class
  \<open>disabled\<close>, \<open>subprocess_list\<close> is the text of the \<open>span\<close>.
\<close>

subsection \<open>The browser\<close>

text \<open>\<open>window.setInterval(callback, delay)\<close> starts a timer and returns its identifier;
  \<open>clearInterval(id)\<close> stops the timer of that identifier, if there is one.\<close>

definition window_setInterval :: "delay \<Rightarrow> widget \<Rightarrow> nat \<times> widget" where
  "window_setInterval delay w =
     (next_timer w, w\<lparr>timers := timers w @ [(next_timer w, delay)], next_timer := Suc (next_timer w)\<rparr>)"

definition clearInterval :: "nat option \<Rightarrow> widget \<Rightarrow> widget" where
  "clearInterval tid w =
     (case tid of
        None \<Rightarrow> w
      | Some i \<Rightarrow> w\<lparr>timers := filter (\<lambda>t. fst t \<noteq> i) (timers w)\<rparr>)"

definition send :: "message \<Rightarrow> widget \<Rightarrow> widget" where
  "send msg w = w\<lparr>sent := sent w @ [msg]\<rparr>"

definition add_class :: "string \<Rightarrow> string list \<Rightarrow> string list" where
  "add_class c cs = (if c \<in> set cs then cs else cs @ [c])"

definition remove_class :: "string \<Rightarrow> string list \<Rightarrow> string list" where
  "remove_class c cs = filter (\<lambda>x. x \<noteq> c) cs"

text \<open>\<open>$el.position()\<close>: the inline \<open>left\<close> and \<open>top\<close> where they are set.\<close>

definition position_left :: "widget \<Rightarrow> int" where
  "position_left w = (case el_left w of Some x \<Rightarrow> x | None \<Rightarrow> layout_left w)"

definition position_top :: "widget \<Rightarrow> int" where
  "position_top w = (case el_top w of Some y \<Rightarrow> y | None \<Rightarrow> layout_top w)"

subsection \<open>UpdateView\<close>

text \<open>
  \<^verbatim>\<open>
  setInterval: function(newInterval) {
      var me = this;
      if(newInterval===undefined) newInterval = me.model.get('interval');
      if(newInterval===me._interval) return;
      me._interval = newInterval;
      if(me._updater) clearInterval(me._updater);
      if(me._interval) {
          me._updater = setInterval(function() {
              me.send({myupdate: true});
              if(!me.model.comm_live) {
                  console.log('missing comm, canceling widget updates', me);
                  clearInterval(me._updater);
              }
          }, me._interval * 1000);
      }
  }
  \<close>
  \<open>timer_callback\<close> is the function given to \<open>setInterval\<close>. An identifier is truthy
  when it is defined and not zero.
\<close>

definition timer_callback :: "widget \<Rightarrow> widget" where
  "timer_callback w =
     (let w1 = send Myupdate w
      in if \<not> comm_live w1
         then clearInterval (v_updater w1)
                (w1\<lparr>console := console w1 @ [''missing comm, canceling widget updates'']\<rparr>)
         else w1)"

definition setInterval :: "rat option \<Rightarrow> widget \<Rightarrow> widget" where
  "setInterval arg w =
     (let newInterval = (case arg of None \<Rightarrow> m_interval w | Some v \<Rightarrow> v)
      in if newInterval = v_interval w then w
         else
           (let w1 = w\<lparr>v_interval := newInterval\<rparr>;
                w2 = (case v_updater w1 of
                        None \<Rightarrow> w1
                      | Some i \<Rightarrow> if i \<noteq> 0 then clearInterval (Some i) w1 else w1)
            in if v_interval w2 \<noteq> 0
               then (let (tid, w3) = window_setInterval (Times (v_interval w2) 1000) w2
                     in w3\<lparr>v_updater := Some tid\<rparr>)
               else w2))"

text \<open>\<^verbatim>\<open>remove: function() { clearInterval(this._updater); }\<close>\<close>

definition remove :: "widget \<Rightarrow> widget" where
  "remove w = clearInterval (v_updater w) w"

subsection \<open>SubprocessView\<close>

text \<open>
  The handler of a click on a button of class \<open>js-state\<close>; \<open>cls\<close> is the
  \<open>className\<close> of the button.
  \<^verbatim>\<open>
  var oldState = me.$el.attr('qcodes-state'),
      state = this.className.substr(this.className.indexOf('qcodes'))
          .split('-')[1].split(' ')[0];
  me.$el.appendTo('body');
  if(oldState === 'floated') {
      me.$el.draggable('destroy').css({left:'', top: ''});
  }
  me.$el.attr('qcodes-state', state);
  if(state === 'floated') {
      me.$el.draggable().css({
          left: window.innerWidth - me.$el.width() - 15,
          top: window.innerHeight - me.$el.height() - 10
      });
  }
  \<close>
\<close>

definition click_js_state :: "string \<Rightarrow> widget \<Rightarrow> exn + widget" where
  "click_js_state cls w =
     (let oldState = qcodes_state w in
      case state_of_class cls of
        Inl e \<Rightarrow> Inl e
      | Inr state \<Rightarrow>
          (let w1 = w\<lparr>el_parent := Body\<rparr>;
               w2 = (if oldState = Some ''floated''
                     then w1\<lparr>draggable := False,
                             el_classes := remove_class ''ui-draggable'' (el_classes w1),
                             el_left := None, el_top := None\<rparr>
                     else w1);
               w3 = w2\<lparr>qcodes_state := Some state\<rparr>
           in Inr (if state = ''floated''
                   then w3\<lparr>draggable := True,
                           el_classes := add_class ''ui-draggable'' (el_classes w3),
                           el_left := Some (inner_width w3 - el_width w3 - 15),
                           el_top := Some (inner_height w3 - el_height w3 - 10)\<rparr>
                   else w3)))"

text \<open>
  The handler of \<open>resize\<close> of the window:
  \<^verbatim>\<open>
  if(me.$el.attr('qcodes-state') === 'floated') {
      var position = me.$el.position(),
          minVis = 20,
          maxLeft = window.innerWidth - minVis,
          maxTop = window.innerHeight - minVis;
      if(position.left > maxLeft) me.$el.css('left', maxLeft);
      if(position.top > maxTop) me.$el.css('top', maxTop);
  }
  \<close>
\<close>

definition on_resize :: "widget \<Rightarrow> widget" where
  "on_resize w =
     (if qcodes_state w = Some ''floated''
      then (let left = position_left w;
                top = position_top w;
                minVis = 20;
                maxLeft = inner_width w - minVis;
                maxTop = inner_height w - minVis;
                w1 = (if left > maxLeft then w\<lparr>el_left := Some maxLeft\<rparr> else w)
            in if top > maxTop then w1\<lparr>el_top := Some maxTop\<rparr> else w1)
      else w)"

text \<open>The handlers of the Clear and Abort buttons.\<close>

definition click_clear :: "widget \<Rightarrow> widget" where
  "click_clear w = w\<lparr>output_area := [], clear_disabled := True\<rparr>"

definition click_abort :: "widget \<Rightarrow> widget" where
  "click_abort w = send Abort w"

text \<open>
  \<open>display\<close>, which each view defines for itself.
  \<^verbatim>\<open>
  UpdateView:        this.el.innerHTML = message;
  HiddenUpdateView:  this.$el.hide();
  SubprocessView:
      if(message) {
          var initialScroll = this.outputArea.scrollTop();
          this.outputArea.scrollTop(this.outputArea.prop('scrollHeight'));
          var scrollBottom = this.outputArea.scrollTop();

          if(this.$el.attr('qcodes-state') === 'minimized') {
              this.$el.find('.qcodes-docked').click();
              initialScroll = scrollBottom;
          }

          this.outputArea.append(message);
          this.clearButton.removeClass('disabled');

          this.outputArea.scrollTop(initialScroll === scrollBottom ?
              this.outputArea.prop('scrollHeight') : initialScroll);
      }

      var processes = this.model.get('_processes') || 'No subprocesses';
      this.abortButton.toggleClass('disabled', processes.indexOf('Measurement')===-1);
      this.subprocessList.text(processes);
  \<close>
  A message is truthy when it is not empty. The button found by \<open>.qcodes-docked\<close> is the
  docked button, and \<open>click()\<close> runs its handler at once. The lines on \<open>scrollTop\<close> change
  the scroll position only.
\<close>

definition display_subprocess :: "string \<Rightarrow> widget \<Rightarrow> exn + widget" where
  "display_subprocess msg w =
     (case (if msg \<noteq> []
            then (case (if qcodes_state w = Some ''minimized''
                        then click_js_state (className Docked_button) w
                        else Inr w) of
                    Inl e \<Rightarrow> Inl e
                  | Inr w1 \<Rightarrow> Inr (w1\<lparr>output_area := output_area w1 @ [Html msg], clear_disabled := False\<rparr>))
            else Inr w) of
        Inl e \<Rightarrow> Inl e
      | Inr w2 \<Rightarrow>
          (let processes = (if m_processes w2 \<noteq> [] then m_processes w2 else ''No subprocesses'')
           in Inr (w2\<lparr>abort_disabled := (indexOf processes ''Measurement'' = - 1),
                      subprocess_list := processes\<rparr>)))"

definition display :: "string \<Rightarrow> widget \<Rightarrow> exn + widget" where
  "display msg w =
     (case view_class w of
        UpdateView \<Rightarrow> Inr (w\<lparr>inner_html := msg\<rparr>)
      | HiddenUpdateView \<Rightarrow> Inr (w\<lparr>hidden := True\<rparr>)
      | SubprocessView \<Rightarrow> display_subprocess msg w)"

text \<open>\<^verbatim>\<open>update: function() { this.display(this.model.get('_message')); this.setInterval(); }\<close>\<close>

definition update :: "widget \<Rightarrow> exn + widget" where
  "update w =
     (case display (m_message w) w of
        Inl e \<Rightarrow> Inl e
      | Inr w1 \<Rightarrow> Inr (setInterval None w1))"

text \<open>
  \<open>render\<close>. \<open>UpdateView\<close> (and with it \<open>HiddenUpdateView\<close>) sets \<open>_interval\<close> to 0
  and updates. \<open>SubprocessView\<close> sets \<open>_interval\<close> to 0, removes the other panels,
  \<^verbatim>\<open>$('.qcodes-output-view').not(me.$el).remove();\<close>
  gives its element the class \<open>qcodes-output-view\<close>, the attribute \<open>qcodes-state\<close>
  \<open>docked\<close> and the content of the panel (an empty \<open>span\<close>, the Abort and Clear
  buttons, both \<open>disabled\<close>, the three \<open>js-state\<close> buttons and an empty \<open>pre\<close>),
  binds the handlers above, and updates.
\<close>

definition is_panel :: "nat \<times> string list \<Rightarrow> bool" where
  "is_panel e \<longleftrightarrow> ''qcodes-output-view'' \<in> set (snd e)"

definition render_subprocess :: "widget \<Rightarrow> exn + widget" where
  "render_subprocess w =
     (let w1 = w\<lparr>v_interval := 0\<rparr>;
          w2 = w1\<lparr>others := filter (\<lambda>e. \<not> is_panel e) (others w1)\<rparr>;
          w3 = w2\<lparr>el_classes := add_class ''qcodes-output-view'' (el_classes w2),
                  qcodes_state := Some ''docked'',
                  subprocess_list := [],
                  abort_disabled := True,
                  clear_disabled := True,
                  output_area := []\<rparr>
      in update w3)"

definition render :: "widget \<Rightarrow> exn + widget" where
  "render w =
     (case view_class w of
        SubprocessView \<Rightarrow> render_subprocess w
      | _ \<Rightarrow> update (w\<lparr>v_interval := 0\<rparr>))"

subsection \<open>What happens to a rendered view\<close>

text \<open>
  The events of a view after \<open>render\<close>: a timer of the browser fires (its callback runs if
  the timer is running), the framework or other code calls \<open>setInterval\<close>, \<open>remove\<close> or
  \<open>update\<close>, the kernel changes the widget model (and the framework calls \<open>update\<close>),
  the connection to the kernel is lost, the user clicks a button of the panel, resizes
  the window, or drags the panel (jQuery UI moves a draggable element by setting its
  \<open>left\<close> and \<open>top\<close>).
\<close>

datatype event =
    Timer_fires nat
  | Call_setInterval "rat option"
  | Call_remove
  | Call_update
  | Model_change string rat string
  | Comm_lost
  | Click_state button
  | Click_clear
  | Click_abort
  | Resize int int
  | Drag int int

fun step :: "event \<Rightarrow> widget \<Rightarrow> exn + widget" where
  "step (Timer_fires i) w = Inr (if i \<in> fst ` set (timers w) then timer_callback w else w)"
| "step (Call_setInterval arg) w = Inr (setInterval arg w)"
| "step Call_remove w = Inr (remove w)"
| "step Call_update w = update w"
| "step (Model_change msg iv procs) w =
     update (w\<lparr>m_message := msg, m_interval := iv, m_processes := procs\<rparr>)"
| "step Comm_lost w = Inr (w\<lparr>comm_live := False\<rparr>)"
| "step (Click_state b) w =
     (if view_class w = SubprocessView then click_js_state (className b) w else Inr w)"
| "step Click_clear w = Inr (if view_class w = SubprocessView then click_clear w else w)"
| "step Click_abort w = Inr (if view_class w = SubprocessView then click_abort w else w)"
| "step (Resize width height) w =
     (let w1 = w\<lparr>inner_width := width, inner_height := height\<rparr>
      in Inr (if view_class w = SubprocessView then on_resize w1 else w1))"
| "step (Drag x y) w = Inr (if draggable w then w\<lparr>el_left := Some x, el_top := Some y\<rparr> else w)"

fun run :: "event list \<Rightarrow> widget \<Rightarrow> exn + widget" where
  "run [] w = Inr w"
| "run (e # es) w = (case step e w of Inl x \<Rightarrow> Inl x | Inr w1 \<Rightarrow> run es w1)"

text \<open>The state named by the class of each button, to compare with what the handler
  computes.\<close>

fun state_name :: "button \<Rightarrow> string" where
  "state_name Minimized_button = ''minimized''"
| "state_name Docked_button = ''docked''"
| "state_name Floated_button = ''floated''"

text \<open>At most one timer of the view is running, and it is the one \<open>_updater\<close> names; the
  browser gives out identifiers that are positive and new.\<close>

definition one_timer :: "widget \<Rightarrow> bool" where
  "one_timer w \<longleftrightarrow>
     0 < next_timer w \<and>
     (timers w = [] \<or>
      (\<exists>i d. timers w = [(i, d)] \<and> v_updater w = Some i \<and> i \<noteq> 0 \<and> i < next_timer w))"

text \<open>An event changes the interval when it calls \<open>setInterval\<close>, directly or through
  \<open>update\<close>, with an interval other than the one the view has. A sequence of events is
  settled from a state when none of them, where it happens, changes the interval.\<close>

fun changes_interval :: "widget \<Rightarrow> event \<Rightarrow> bool" where
  "changes_interval w (Call_setInterval arg) =
     ((case arg of None \<Rightarrow> m_interval w | Some v \<Rightarrow> v) \<noteq> v_interval w)"
| "changes_interval w Call_update = (m_interval w \<noteq> v_interval w)"
| "changes_interval w (Model_change msg iv procs) = (iv \<noteq> v_interval w)"
| "changes_interval w e = False"

fun settled :: "event list \<Rightarrow> widget \<Rightarrow> bool" where
  "settled [] w = True"
| "settled (e # es) w =
     (\<not> changes_interval w e \<and> (case step e w of Inl x \<Rightarrow> False | Inr w1 \<Rightarrow> settled es w1))"

text \<open>The number of update messages sent to the kernel so far.\<close>

definition updates_sent :: "widget \<Rightarrow> nat" where
  "updates_sent w = count_list (sent w) Myupdate"

text \<open>A view that was just created, in a window of 1000 by 800 pixels: nothing rendered, no
  timer started, the connection to the kernel alive.\<close>

definition new_view :: "view_class \<Rightarrow> widget" where
  "new_view c =
     \<lparr>view_class = c, v_interval = 0, v_updater = None,
      m_message = [], m_interval = 0, m_processes = [], comm_live = True,
      timers = [], next_timer = 1, sent = [], console = [],
      inner_width = 1000, inner_height = 800, others = [],
      el_parent = Detached, el_classes = [], qcodes_state = None,
      el_left = None, el_top = None, el_width = 400, el_height = 100,
      layout_left = 595, layout_top = 700, draggable = False, hidden = False,
      inner_html = [], output_area = [], clear_disabled = False, abort_disabled = False,
      subprocess_list = []\<rparr>"

text \<open>The new view after \<open>setInterval(2)\<close>, and the same with the connection lost.\<close>

definition polling :: widget where
  "polling = setInterval (Some 2) (new_view UpdateView)"

definition comm_dead :: widget where
  "comm_dead = polling\<lparr>comm_live := False\<rparr>"

text \<open>The view after the timer has fired with the connection lost.\<close>

definition stopped :: widget where
  "stopped = comm_dead\<lparr>sent := [Myupdate],
      console := [''missing comm, canceling widget updates''], timers := []\<rparr>"

text \<open>A new view whose widget model asks for an interval of 2 seconds; and the stopped view
  after \<open>setInterval(5)\<close> and one more firing of the new timer.\<close>

definition configured :: widget where
  "configured = (new_view UpdateView)\<lparr>m_interval := 2\<rparr>"

definition restarted :: widget where
  "restarted = stopped\<lparr>v_interval := 5, v_updater := Some 2, next_timer := 3,
      sent := [Myupdate, Myupdate],
      console := [''missing comm, canceling widget updates'',
                  ''missing comm, canceling widget updates'']\<rparr>"

text \<open>The attribute \<open>qcodes-state\<close> holds one of the three states of the panel.\<close>

definition panel_state_ok :: "widget \<Rightarrow> bool" where
  "panel_state_ok w \<longleftrightarrow>
     qcodes_state w = Some ''docked'' \<or> qcodes_state w = Some ''minimized'' \<or>
     qcodes_state w = Some ''floated''"

text \<open>The number of elements of class \<open>qcodes-output-view\<close> in the document: the view's own
  element when it is in the document, and the others.\<close>

definition panels_in_document :: "widget \<Rightarrow> nat" where
  "panels_in_document w =
     (if el_parent w \<noteq> Detached \<and> ''qcodes-output-view'' \<in> set (el_classes w) then 1 else 0) +
     length (filter is_panel (others w))"

text \<open>How many pixels of the panel lie inside the viewport, along each axis.\<close>

definition visible_width :: "widget \<Rightarrow> int" where
  "visible_width w =
     max 0 (min (position_left w + el_width w) (inner_width w) - max (position_left w) 0)"

definition visible_height :: "widget \<Rightarrow> int" where
  "visible_height w =
     max 0 (min (position_top w + el_height w) (inner_height w) - max (position_top w) 0)"

text \<open>States to run the definitions on: the new \<open>SubprocessView\<close> after \<open>render\<close>; that
  panel floated and dragged until 10 of its 400 pixels are left of the window's left
  edge; a new view in a document that still holds the panel of the view before a restart
  of the kernel; the floated panel where the click puts it; the view after the restart
  with its element already in the widget area.\<close>

definition rendered_panel :: widget where
  "rendered_panel =
     (new_view SubprocessView)\<lparr>el_classes := [''qcodes-output-view''],
        qcodes_state := Some ''docked'', clear_disabled := True, abort_disabled := True,
        subprocess_list := ''No subprocesses''\<rparr>"

definition floated_off_left :: widget where
  "floated_off_left =
     rendered_panel\<lparr>el_parent := Body, el_classes := [''qcodes-output-view'', ''ui-draggable''],
        qcodes_state := Some ''floated'', draggable := True,
        el_left := Some (- 390), el_top := Some 100\<rparr>"

definition after_restart :: widget where
  "after_restart = (new_view SubprocessView)\<lparr>others := [(7, [''qcodes-output-view''])]\<rparr>"

definition floated_panel :: widget where
  "floated_panel =
     rendered_panel\<lparr>el_parent := Body, el_classes := [''qcodes-output-view'', ''ui-draggable''],
        qcodes_state := Some ''floated'', draggable := True,
        el_left := Some 585, el_top := Some 690\<rparr>"

definition displayed_after_restart :: widget where
  "displayed_after_restart = after_restart\<lparr>el_parent := Widget_area\<rparr>"

section \<open>Properties of the polling loop\<close>

lemma poll_falsy_at:
  "falsy_at sync sleep d n \<Longrightarrow>
     poll sync sleep d = Some (Inr (), snd (sync (before_call sync sleep n d)))"
proof (induction n arbitrary: d)
  case 0
  then show ?case
    by (cases "sync d") (simp add: falsy_at_def poll.simps)
next
  case (Suc n)
  from Suc.prems have first: "fst (sync d) = Inr True"
    by (auto simp: falsy_at_def dest: spec [of _ 0])
  have "falsy_at sync sleep (sleep (snd (sync d))) n"
    unfolding falsy_at_def
  proof (intro conjI allI impI)
    show "fst (sync (before_call sync sleep n (sleep (snd (sync d))))) = Inr False"
      using Suc.prems by (simp add: falsy_at_def)
  next
    fix k assume "k < n"
    then have "Suc k < Suc n" by simp
    with Suc.prems have "fst (sync (before_call sync sleep (Suc k) d)) = Inr True"
      unfolding falsy_at_def by blast
    then show "fst (sync (before_call sync sleep k (sleep (snd (sync d))))) = Inr True"
      by simp
  qed
  from Suc.IH [OF this] first show ?case
    by (cases "sync d") (simp add: poll.simps [of sync sleep d])
qed

lemma falsy_at_0: "fst (sync d) = Inr False \<Longrightarrow> falsy_at sync sleep d 0"
  by (simp add: falsy_at_def)

lemma falsy_at_Suc:
  assumes first: "sync d = (Inr True, d')" and rest: "falsy_at sync sleep (sleep d') n"
  shows "falsy_at sync sleep d (Suc n)"
  unfolding falsy_at_def
proof (intro conjI allI impI)
  show "fst (sync (before_call sync sleep (Suc n) d)) = Inr False"
    using first rest by (simp add: falsy_at_def)
next
  fix k assume k: "k < Suc n"
  show "fst (sync (before_call sync sleep k d)) = Inr True"
  proof (cases k)
    case 0
    with first show ?thesis by simp
  next
    case (Suc j)
    with k first rest show ?thesis by (simp add: falsy_at_def)
  qed
qed

lemma poll_returns_falsy_at:
  assumes "poll sync sleep d = Some r" and "fst r = Inr ()"
  shows "\<exists>n. falsy_at sync sleep d n"
proof -
  have "fst r = Inr () \<longrightarrow> (\<exists>n. falsy_at sync sleep d n)"
  proof (rule poll.raw_induct
      [where P = "\<lambda>sync sleep d r. fst r = Inr () \<longrightarrow> (\<exists>n. falsy_at sync sleep d n)"])
    show "poll sync sleep d = Some r" by (rule assms(1))
  next
    fix p :: "'a sync_op \<Rightarrow> ('a \<Rightarrow> 'a) \<Rightarrow> 'a \<Rightarrow> ((exn + unit) \<times> 'a) option"
      and sync sleep d r
    assume IH: "\<And>sync sleep d r. p sync sleep d = Some r \<Longrightarrow>
                  fst r = Inr () \<longrightarrow> (\<exists>n. falsy_at sync sleep d n)"
      and body: "(case sync d of (Inl e, d') \<Rightarrow> Some (Inl e, d')
                  | (Inr b, d') \<Rightarrow> if b then p sync sleep (sleep d') else Some (Inr (), d'))
                 = Some r"
    show "fst r = Inr () \<longrightarrow> (\<exists>n. falsy_at sync sleep d n)"
    proof
      assume ok: "fst r = Inr ()"
      obtain o1 d' where sd: "sync d = (o1, d')" by (cases "sync d")
      show "\<exists>n. falsy_at sync sleep d n"
      proof (cases o1)
        case (Inl e)
        with body sd ok show ?thesis by auto
      next
        case (Inr b)
        show ?thesis
        proof (cases b)
          case False
          with sd Inr have "falsy_at sync sleep d 0" by (simp add: falsy_at_0)
          then show ?thesis ..
        next
          case True
          with body sd Inr have "p sync sleep (sleep d') = Some r" by simp
          with IH ok obtain n where "falsy_at sync sleep (sleep d') n" by blast
          with sd Inr True have "falsy_at sync sleep d (Suc n)"
            by (simp add: falsy_at_Suc)
          then show ?thesis ..
        qed
      qed
    qed
  qed
  with assms(2) show ?thesis by simp
qed

lemma poll_returns_not_truthy:
  assumes "poll sync sleep d = Some r"
  shows "\<exists>n. fst (sync (before_call sync sleep n d)) \<noteq> Inr True"
proof (rule poll.raw_induct
    [where P = "\<lambda>sync sleep d r. \<exists>n. fst (sync (before_call sync sleep n d)) \<noteq> Inr True"])
  show "poll sync sleep d = Some r" by (rule assms)
next
  fix p :: "'a sync_op \<Rightarrow> ('a \<Rightarrow> 'a) \<Rightarrow> 'a \<Rightarrow> ((exn + unit) \<times> 'a) option"
    and sync sleep d r
  assume IH: "\<And>sync sleep d r. p sync sleep d = Some r \<Longrightarrow>
                \<exists>n. fst (sync (before_call sync sleep n d)) \<noteq> Inr True"
    and body: "(case sync d of (Inl e, d') \<Rightarrow> Some (Inl e, d')
                | (Inr b, d') \<Rightarrow> if b then p sync sleep (sleep d') else Some (Inr (), d'))
               = Some r"
  show "\<exists>n. fst (sync (before_call sync sleep n d)) \<noteq> Inr True"
  proof (cases "fst (sync d) = Inr True")
    case False
    then have "fst (sync (before_call sync sleep 0 d)) \<noteq> Inr True" by simp
    then show ?thesis ..
  next
    case True
    with body have "p sync sleep (sleep (snd (sync d))) = Some r"
      by (cases "sync d") simp
    from IH [OF this] obtain n
      where "fst (sync (before_call sync sleep n (sleep (snd (sync d))))) \<noteq> Inr True" ..
    then have "fst (sync (before_call sync sleep (Suc n) d)) \<noteq> Inr True" by simp
    then show ?thesis ..
  qed
qed

lemma before_call_countdown:
  "before_call countdown_sync countdown_sleep k n = n - k"
  by (induction k arbitrary: n) (simp_all add: countdown_sync_def countdown_sleep_def)

lemma falsy_at_countdown: "falsy_at countdown_sync countdown_sleep n n"
  by (auto simp: falsy_at_def before_call_countdown countdown_sync_def)

text \<open>
  C6. The loop \<open>while data.sync(): time.sleep(0.1)\<close> runs to its end exactly when some call
  of \<open>sync\<close> returns a falsy value (the calls before it having returned truthy ones, or
  the loop would not have reached it); it then stops at that call, whatever its number:
  the loop has no bound on its iterations and no timeout, so a dataset that needs \<open>n\<close>
  rounds is polled \<open>n\<close> times, for every \<open>n\<close>.
\<close>

theorem poll_terminates_iff_sync_falsy:
  "((\<exists>d'. poll sync sleep d = Some (Inr (), d')) \<longleftrightarrow> (\<exists>n. falsy_at sync sleep d n)) \<and>
   (falsy_at sync sleep d n \<longrightarrow>
      poll sync sleep d = Some (Inr (), snd (sync (before_call sync sleep n d)))) \<and>
   ((\<forall>n. fst (sync (before_call sync sleep n d)) = Inr True) \<longrightarrow> poll sync sleep d = None) \<and>
   (\<forall>m. poll countdown_sync countdown_sleep m = Some (Inr (), 0) \<and>
        falsy_at countdown_sync countdown_sleep m m)"
proof (intro conjI impI allI)
  show "(\<exists>d'. poll sync sleep d = Some (Inr (), d')) \<longleftrightarrow> (\<exists>n. falsy_at sync sleep d n)"
  proof
    assume "\<exists>d'. poll sync sleep d = Some (Inr (), d')"
    then obtain d' where "poll sync sleep d = Some (Inr (), d')" ..
    then show "\<exists>n. falsy_at sync sleep d n"
      by (rule poll_returns_falsy_at) simp
  next
    assume "\<exists>n. falsy_at sync sleep d n"
    then obtain n where "falsy_at sync sleep d n" ..
    then show "\<exists>d'. poll sync sleep d = Some (Inr (), d')"
      by (auto dest: poll_falsy_at)
  qed
next
  assume "falsy_at sync sleep d n"
  then show "poll sync sleep d = Some (Inr (), snd (sync (before_call sync sleep n d)))"
    by (rule poll_falsy_at)
next
  assume truthy: "\<forall>n. fst (sync (before_call sync sleep n d)) = Inr True"
  show "poll sync sleep d = None"
  proof (rule ccontr)
    assume "poll sync sleep d \<noteq> None"
    then obtain r where "poll sync sleep d = Some r" by auto
    then have "\<exists>n. fst (sync (before_call sync sleep n d)) \<noteq> Inr True"
      by (rule poll_returns_not_truthy)
    with truthy show False by simp
  qed
next
  fix m
  show "poll countdown_sync countdown_sleep m = Some (Inr (), 0)"
    using poll_falsy_at [OF falsy_at_countdown, of m]
    by (simp add: before_call_countdown countdown_sync_def)
next
  fix m
  show "falsy_at countdown_sync countdown_sleep m m"
    by (rule falsy_at_countdown)
qed

theorem poll_terminates_iff_sync_falsy_witness:
  "falsy_at countdown_sync countdown_sleep 3 3 \<and>
   (\<exists>d'. poll countdown_sync countdown_sleep 3 = Some (Inr (), d')) \<and>
   poll countdown_sync countdown_sleep 3 =
     Some (Inr (), snd (countdown_sync (before_call countdown_sync countdown_sleep 3 3)))"
  using poll_terminates_iff_sync_falsy [of countdown_sync countdown_sleep 3 3]
  by blast

lemma stops_at_Suc:
  "stops_at sync sleep d (Suc n) \<longleftrightarrow>
     fst (sync d) = Inr True \<and> stops_at sync sleep (sleep (snd (sync d))) n"
proof
  assume s: "stops_at sync sleep d (Suc n)"
  then have first: "fst (sync d) = Inr True"
    by (auto simp: stops_at_def dest: spec [of _ 0])
  have "stops_at sync sleep (sleep (snd (sync d))) n"
    unfolding stops_at_def
  proof (intro conjI allI impI)
    show "fst (sync (before_call sync sleep n (sleep (snd (sync d))))) \<noteq> Inr True"
      using s by (simp add: stops_at_def)
  next
    fix k assume "k < n"
    then have "Suc k < Suc n" by simp
    with s have "fst (sync (before_call sync sleep (Suc k) d)) = Inr True"
      unfolding stops_at_def by blast
    then show "fst (sync (before_call sync sleep k (sleep (snd (sync d))))) = Inr True"
      by simp
  qed
  with first show "fst (sync d) = Inr True \<and> stops_at sync sleep (sleep (snd (sync d))) n" ..
next
  assume a: "fst (sync d) = Inr True \<and> stops_at sync sleep (sleep (snd (sync d))) n"
  show "stops_at sync sleep d (Suc n)"
    unfolding stops_at_def
  proof (intro conjI allI impI)
    show "fst (sync (before_call sync sleep (Suc n) d)) \<noteq> Inr True"
      using a by (simp add: stops_at_def)
  next
    fix k assume k: "k < Suc n"
    show "fst (sync (before_call sync sleep k d)) = Inr True"
    proof (cases k)
      case 0
      with a show ?thesis by simp
    next
      case (Suc j)
      with k a show ?thesis by (simp add: stops_at_def)
    qed
  qed
qed

lemma poll_stops_at:
  "stops_at sync sleep d n \<Longrightarrow>
     poll sync sleep d =
       Some (loop_result (fst (sync (before_call sync sleep n d))),
             snd (sync (before_call sync sleep n d)))"
proof (induction n arbitrary: d)
  case 0
  then show ?case
    by (cases "sync d"; cases "fst (sync d)")
       (auto simp: stops_at_def poll.simps [of sync sleep d] loop_result_def)
next
  case (Suc n)
  then have first: "fst (sync d) = Inr True"
    and rest: "stops_at sync sleep (sleep (snd (sync d))) n"
    by (simp_all add: stops_at_Suc)
  from Suc.IH [OF rest] first show ?case
    by (cases "sync d") (simp add: poll.simps [of sync sleep d])
qed

lemma poll_Some_stops:
  assumes "poll sync sleep d = Some r"
  shows "\<exists>n. stops_at sync sleep d n"
proof -
  let ?P = "\<lambda>n. fst (sync (before_call sync sleep n d)) \<noteq> Inr True"
  from assms have "\<exists>n. ?P n" by (rule poll_returns_not_truthy)
  then have "?P (LEAST n. ?P n)" by (rule LeastI_ex)
  moreover have "\<forall>k<(LEAST n. ?P n). \<not> ?P k"
    using not_less_Least by blast
  ultimately have "stops_at sync sleep d (LEAST n. ?P n)"
    by (simp add: stops_at_def)
  then show ?thesis ..
qed

lemma poll_None: "(\<forall>n. \<not> stops_at sync sleep d n) \<Longrightarrow> poll sync sleep d = None"
  using poll_Some_stops by (metis not_None_eq)

lemma poll_simulation:
  assumes sync: "\<And>d. sync' (f d) = (fst (sync d), f (snd (sync d)))"
    and sleep: "\<And>d. sleep' (f d) = f (sleep d)"
  shows "poll sync' sleep' (f d) = map_option (\<lambda>x. (fst x, f (snd x))) (poll sync sleep d)"
proof -
  have bc: "\<And>n d. before_call sync' sleep' n (f d) = f (before_call sync sleep n d)"
  proof -
    fix n d show "before_call sync' sleep' n (f d) = f (before_call sync sleep n d)"
      by (induction n arbitrary: d) (simp_all add: sync sleep)
  qed
  have st: "\<And>n. stops_at sync' sleep' (f d) n = stops_at sync sleep d n"
    by (simp add: stops_at_def bc sync)
  show ?thesis
  proof (cases "\<exists>n. stops_at sync sleep d n")
    case True
    then obtain n where n: "stops_at sync sleep d n" ..
    with st have n': "stops_at sync' sleep' (f d) n" by simp
    show ?thesis
      by (simp add: poll_stops_at [OF n] poll_stops_at [OF n'] bc sync)
  next
    case False
    then have "poll sync sleep d = None" by (simp add: poll_None)
    moreover from False st have "poll sync' sleep' (f d) = None" by (simp add: poll_None)
    ultimately show ?thesis by simp
  qed
qed

section \<open>Properties of the sweep\<close>

lemma measure_all_length: "length (fst (measure_all gs w)) = length gs"
  by (induction gs arbitrary: w) (simp_all add: split_beta Let_def)

lemma sweep_loop_columns:
  assumes "length cols = length gets" and "\<forall>c\<in>set cols. length c = k"
  shows "length (fst (sweep_loop set_v gets vs cols w)) = length gets \<and>
         (\<forall>c\<in>set (fst (sweep_loop set_v gets vs cols w)). length c = k + length vs)"
  using assms
proof (induction vs arbitrary: cols w k)
  case Nil
  then show ?case by simp
next
  case (Cons v vs)
  obtain rs w2 where m: "measure_all gets (set_v v w) = (rs, w2)"
    by (cases "measure_all gets (set_v v w)")
  then have rs: "length rs = length gets"
    using measure_all_length [of gets "set_v v w"] by simp
  let ?cols = "map2 (\<lambda>c r. c @ [r]) cols rs"
  have len: "length ?cols = length gets"
    using Cons.prems(1) rs by simp
  have each: "\<forall>c\<in>set ?cols. length c = Suc k"
    using Cons.prems(2) by (auto dest!: set_zip_leftD)
  from Cons.IH [OF len each, of w2] m show ?case
    by simp
qed

lemma length_measured_names: "length (measured_names ps) = length (concat (map mp_outputs ps))"
proof -
  have "\<And>i. length (concat (map (\<lambda>(i, p). map (\<lambda>(n, g). (i, n)) (mp_outputs p)) (enumerate i ps)))
           = length (concat (map mp_outputs ps))"
    by (induction ps) simp_all
  then show ?thesis by (simp add: measured_names_def)
qed

lemma length_array_ids: "length (array_ids ins) = length ins"
  by (simp add: array_ids_def)

lemma length_concat_single:
  "\<forall>p\<in>set ps. length (mp_outputs p) = 1 \<Longrightarrow> length (concat (map mp_outputs ps)) = length ps"
  by (induction ps) simp_all

lemma run_loop_arrays:
  assumes "run_loop sp settings delay ps loc disk w = (ds, disk', w')"
  shows "arrays ds = (sp_name sp @ ''_set'', settings) # measured_arrays ds"
    and "map fst (measured_arrays ds) = array_ids (measured_names ps)"
    and "length (measured_arrays ds) = length (concat (map mp_outputs ps))"
    and "\<forall>a\<in>set (arrays ds). length (snd a) = length settings"
    and "location ds = loc" and "disk' loc = Some ds"
proof -
  let ?outs = "concat (map mp_outputs ps)"
  let ?r = "sweep_loop (sp_set sp) (map snd ?outs) settings (replicate (length ?outs) []) w"
  have cols: "length (fst ?r) = length ?outs \<and> (\<forall>c\<in>set (fst ?r). length c = 0 + length settings)"
    using sweep_loop_columns [of "replicate (length ?outs) []" "map snd ?outs" 0 "sp_set sp" settings w]
    by simp
  have ds: "ds = \<lparr>location = loc,
     arrays = (sp_name sp @ ''_set'', settings) # zip (array_ids (measured_names ps)) (fst ?r)\<rparr>"
    and disk': "disk' = disk(loc \<mapsto> ds)"
    using assms by (auto simp: run_loop_def Let_def split_beta)
  show "arrays ds = (sp_name sp @ ''_set'', settings) # measured_arrays ds"
    by (simp add: ds measured_arrays_def)
  show "map fst (measured_arrays ds) = array_ids (measured_names ps)"
    using cols by (simp add: ds measured_arrays_def length_array_ids length_measured_names)
  show "length (measured_arrays ds) = length ?outs"
    using cols by (simp add: ds measured_arrays_def length_array_ids length_measured_names)
  show "\<forall>a\<in>set (arrays ds). length (snd a) = length settings"
    using cols by (auto simp: ds dest!: set_zip_rightD)
  show "location ds = loc" by (simp add: ds)
  show "disk' loc = Some ds" by (simp add: disk')
qed

lemma measure_all_content:
  "measure_all gs w =
     (map (\<lambda>j. fst ((gs ! j) (after_readings (take j gs) w))) [0..<length gs], after_readings gs w)"
proof (induction gs arbitrary: w)
  case Nil
  then show ?case by (simp add: after_readings_def)
next
  case (Cons g gs)
  obtain r w1 where g: "g w = (r, w1)" by (cases "g w")
  have "map (\<lambda>j. fst (((g # gs) ! j) (after_readings (take j (g # gs)) w))) [0..<length (g # gs)] =
        r # map (\<lambda>j. fst ((gs ! j) (after_readings (take j gs) w1))) [0..<length gs]"
    using g by (simp add: map_upt_Suc after_readings_def del: upt_Suc)
  moreover have "after_readings (g # gs) w = after_readings gs w1"
    using g by (simp add: after_readings_def)
  ultimately show ?case
    using g Cons.IH [of w1] by simp
qed

lemma state_before_0: "state_before set_v gets vs w 0 = w"
  by (simp add: state_before_def)

lemma state_before_Suc:
  "state_before set_v gets (v # vs) w (Suc k) =
     state_before set_v gets vs (after_readings gets (set_v v w)) k"
  by (simp add: state_before_def)

lemma reading_0:
  "reading set_v gets (v # vs) w 0 j = fst ((gets ! j) (after_readings (take j gets) (set_v v w)))"
  by (simp add: reading_def state_before_0)

lemma reading_Suc:
  "reading set_v gets (v # vs) w (Suc k) j =
     reading set_v gets vs (after_readings gets (set_v v w)) k j"
  by (simp add: reading_def state_before_Suc)

lemma sweep_loop_content:
  assumes "length cols = length gets"
  shows "sweep_loop set_v gets vs cols w =
     (map (\<lambda>j. cols ! j @ map (\<lambda>k. reading set_v gets vs w k j) [0..<length vs]) [0..<length gets],
      state_before set_v gets vs w (length vs))"
  using assms
proof (induction vs arbitrary: cols w)
  case Nil
  then have "map (\<lambda>j. cols ! j) [0..<length gets] = cols"
    by (metis map_nth)
  then show ?case by (simp add: state_before_0)
next
  case (Cons v vs)
  let ?w1 = "set_v v w"
  let ?rs = "map (\<lambda>j. fst ((gets ! j) (after_readings (take j gets) ?w1))) [0..<length gets]"
  let ?w2 = "after_readings gets ?w1"
  let ?cols1 = "map2 (\<lambda>c r. c @ [r]) cols ?rs"
  have m: "measure_all gets ?w1 = (?rs, ?w2)" by (rule measure_all_content)
  have len: "length ?cols1 = length gets" using Cons.prems by simp
  have step: "sweep_loop set_v gets (v # vs) cols w = sweep_loop set_v gets vs ?cols1 ?w2"
    using m by (simp del: upt_Suc)
  have cols1: "\<And>j. j < length gets \<Longrightarrow> ?cols1 ! j = cols ! j @ [reading set_v gets (v # vs) w 0 j]"
    using Cons.prems by (simp add: reading_0)
  have "map (\<lambda>j. ?cols1 ! j @ map (\<lambda>k. reading set_v gets vs ?w2 k j) [0..<length vs])
          [0..<length gets] =
        map (\<lambda>j. cols ! j @ map (\<lambda>k. reading set_v gets (v # vs) w k j) [0..<length (v # vs)])
          [0..<length gets]"
  proof (rule map_cong [OF refl])
    fix j assume "j \<in> set [0..<length gets]"
    then have j: "j < length gets" by simp
    have "map (\<lambda>k. reading set_v gets (v # vs) w k j) [0..<length (v # vs)] =
          reading set_v gets (v # vs) w 0 j #
          map (\<lambda>k. reading set_v gets vs ?w2 k j) [0..<length vs]"
      by (simp add: map_upt_Suc reading_Suc del: upt_Suc)
    with cols1 [OF j]
    show "?cols1 ! j @ map (\<lambda>k. reading set_v gets vs ?w2 k j) [0..<length vs] =
          cols ! j @ map (\<lambda>k. reading set_v gets (v # vs) w k j) [0..<length (v # vs)]"
      by simp
  qed
  moreover have "state_before set_v gets vs ?w2 (length vs) =
      state_before set_v gets (v # vs) w (length (v # vs))"
    by (simp add: state_before_Suc)
  ultimately show ?case
    using step Cons.IH [OF len, of ?w2] by simp
qed

lemma run_loop_content:
  assumes "run_loop sp settings delay ps loc disk w = (ds, disk', w')"
  shows "map snd (measured_arrays ds) =
           map (\<lambda>j. map (\<lambda>k. reading (sp_set sp) (map snd (concat (map mp_outputs ps))) settings w k j)
                  [0..<length settings])
             [0..<length (concat (map mp_outputs ps))]"
    and "w' = state_before (sp_set sp) (map snd (concat (map mp_outputs ps))) settings w
                (length settings)"
proof -
  let ?outs = "concat (map mp_outputs ps)"
  let ?gets = "map snd ?outs"
  let ?cols = "map (\<lambda>j. map (\<lambda>k. reading (sp_set sp) ?gets settings w k j) [0..<length settings])
      [0..<length ?outs]"
  have sl: "sweep_loop (sp_set sp) ?gets settings (replicate (length ?outs) []) w =
      (?cols, state_before (sp_set sp) ?gets settings w (length settings))"
    using sweep_loop_content [of "replicate (length ?outs) []" ?gets "sp_set sp" settings w]
    by simp
  from assms sl have ds: "arrays ds =
      (sp_name sp @ ''_set'', settings) # zip (array_ids (measured_names ps)) ?cols"
    and w': "w' = state_before (sp_set sp) ?gets settings w (length settings)"
    by (auto simp: run_loop_def Let_def)
  show "map snd (measured_arrays ds) = ?cols"
    by (simp add: ds measured_arrays_def length_array_ids length_measured_names)
  show "w' = state_before (sp_set sp) ?gets settings w (length settings)" by (rule w')
qed


lemma slice_values_notebook:
  "slice_values (-5) 5 1 = Inr [-5, -4, -3, -2, -1, 0, 1, 2, 3, 4]"
  by (simp add: slice_values_def upt_rec)

lemma array_ids_two_volts:
  "array_ids (measured_names [agilent_volt a1_get, agilent_volt a2_get]) = [''volt_0'', ''volt_1'']"
  by (simp add: array_ids_def measured_names_def agilent_volt_def enumerate_eq_zip upt_rec
      string_of_nat.simps)

lemma loop2_cell_dataset:
  obtains ds disk' w' where
    "loop2_cell k1_set a1_get a2_get disk w = Inr (ds, disk', w')"
    "run_loop (k1_volt k1_set) [-5, -4, -3, -2, -1, 0, 1, 2, 3, 4] 0
       [agilent_volt a1_get, agilent_volt a2_get] ''testsweep'' disk w = (ds, disk', w')"
proof -
  obtain ds disk' w' where
    "run_loop (k1_volt k1_set) [-5, -4, -3, -2, -1, 0, 1, 2, 3, 4] 0
       [agilent_volt a1_get, agilent_volt a2_get] ''testsweep'' disk w = (ds, disk', w')"
    using prod_cases3 by blast
  then show ?thesis
    using that by (simp add: loop2_cell_def slice_values_notebook)
qed

text \<open>
  C1, as amended. A sweep records one reading of every measured value at each setting. In
  the dataset of \<open>Loop(settings).each(p1, ..., pn).run(...)\<close> the first array is the
  set-point array, named after the swept parameter and equal to the settings; then comes
  one measured array per value the parameters return, under its name, and its entry
  number \<open>k\<close> is what that value read when the instrument had been set to setting number
  \<open>k\<close>; every array is as long as the list of settings. There is one measured array per
  parameter when each parameter returns a single value (as \<open>a1.volt\<close> and \<open>a2.volt\<close>
  do). For \<open>Loop(k1.volt[-5:5:1], 0).each(a1.volt, a2.volt)\<close>, whatever the instruments
  do: the arrays are \<open>volt_set\<close>, \<open>volt_0\<close> and \<open>volt_1\<close>, all of length 10,
  \<open>volt_set\<close> is \<open>-5, -4, ..., 4\<close>, and the two measured arrays hold the readings of
  \<open>a1.volt\<close> and of \<open>a2.volt\<close>.
\<close>

theorem sweep_records_every_setting:
  "(run_loop sp settings delay ps loc disk w = (ds, disk', w') \<longrightarrow>
      arrays ds = (sp_name sp @ ''_set'', settings) # measured_arrays ds \<and>
      map fst (measured_arrays ds) = array_ids (measured_names ps) \<and>
      map snd (measured_arrays ds) =
        map (\<lambda>j. map (\<lambda>k. reading (sp_set sp) (getters ps) settings w k j) [0..<length settings])
          [0..<length (getters ps)] \<and>
      w' = state_before (sp_set sp) (getters ps) settings w (length settings) \<and>
      (\<forall>a\<in>set (arrays ds). length (snd a) = length settings) \<and>
      length (measured_arrays ds) = length (getters ps) \<and>
      ((\<forall>p\<in>set ps. length (mp_outputs p) = 1) \<longrightarrow> length (measured_arrays ds) = length ps)) \<and>
   (\<exists>ds2 disk2 w2.
      loop2_cell k1_set a1_get a2_get disk0 w0 = Inr (ds2, disk2, w2) \<and>
      map fst (arrays ds2) = [''volt_set'', ''volt_0'', ''volt_1''] \<and>
      (\<forall>a\<in>set (arrays ds2). length (snd a) = 10) \<and>
      map_of (arrays ds2) ''volt_set'' = Some [-5, -4, -3, -2, -1, 0, 1, 2, 3, 4] \<and>
      length (measured_arrays ds2) = 2 \<and>
      map snd (measured_arrays ds2) =
        map (\<lambda>j. map (\<lambda>k. reading k1_set [a1_get, a2_get] [-5, -4, -3, -2, -1, 0, 1, 2, 3, 4] w0 k j)
                 [0..<10])
          [0..<2])"
proof (intro conjI impI)
  assume run: "run_loop sp settings delay ps loc disk w = (ds, disk', w')"
  show "arrays ds = (sp_name sp @ ''_set'', settings) # measured_arrays ds"
    by (rule run_loop_arrays(1) [OF run])
  show "map fst (measured_arrays ds) = array_ids (measured_names ps)"
    by (rule run_loop_arrays(2) [OF run])
  show "map snd (measured_arrays ds) =
        map (\<lambda>j. map (\<lambda>k. reading (sp_set sp) (getters ps) settings w k j) [0..<length settings])
          [0..<length (getters ps)]"
    using run_loop_content(1) [OF run] by (simp add: getters_def)
  show "w' = state_before (sp_set sp) (getters ps) settings w (length settings)"
    using run_loop_content(2) [OF run] by (simp add: getters_def)
  show "\<forall>a\<in>set (arrays ds). length (snd a) = length settings"
    by (rule run_loop_arrays(4) [OF run])
  show "length (measured_arrays ds) = length (getters ps)"
    by (simp add: run_loop_arrays(3) [OF run] getters_def)
  assume "\<forall>p\<in>set ps. length (mp_outputs p) = 1"
  then show "length (measured_arrays ds) = length ps"
    by (simp add: run_loop_arrays(3) [OF run] length_concat_single)
next
  obtain ds2 disk2 w2 where
    cell: "loop2_cell k1_set a1_get a2_get disk0 w0 = Inr (ds2, disk2, w2)" and
    run: "run_loop (k1_volt k1_set) [-5, -4, -3, -2, -1, 0, 1, 2, 3, 4] 0
       [agilent_volt a1_get, agilent_volt a2_get] ''testsweep'' disk0 w0 = (ds2, disk2, w2)"
    by (rule loop2_cell_dataset)
  note facts = run_loop_arrays [OF run]
  have names: "map fst (arrays ds2) = [''volt_set'', ''volt_0'', ''volt_1'']"
    by (simp add: facts(1) facts(2) array_ids_two_volts k1_volt_def)
  have lens: "\<forall>a\<in>set (arrays ds2). length (snd a) = 10"
    using facts(4) by simp
  have setp: "map_of (arrays ds2) ''volt_set'' = Some [-5, -4, -3, -2, -1, 0, 1, 2, 3, 4]"
    by (subst facts(1)) (simp add: k1_volt_def)
  have two: "length (measured_arrays ds2) = 2"
    by (simp add: facts(3) agilent_volt_def)
  have vals: "map snd (measured_arrays ds2) =
        map (\<lambda>j. map (\<lambda>k. reading k1_set [a1_get, a2_get] [-5, -4, -3, -2, -1, 0, 1, 2, 3, 4] w0 k j)
                 [0..<10])
          [0..<2]"
    using run_loop_content(1) [OF run]
    by (simp add: agilent_volt_def k1_volt_def eval_nat_numeral del: upt_Suc)
  show "\<exists>ds2 disk2 w2.
      loop2_cell k1_set a1_get a2_get disk0 w0 = Inr (ds2, disk2, w2) \<and>
      map fst (arrays ds2) = [''volt_set'', ''volt_0'', ''volt_1''] \<and>
      (\<forall>a\<in>set (arrays ds2). length (snd a) = 10) \<and>
      map_of (arrays ds2) ''volt_set'' = Some [-5, -4, -3, -2, -1, 0, 1, 2, 3, 4] \<and>
      length (measured_arrays ds2) = 2 \<and>
      map snd (measured_arrays ds2) =
        map (\<lambda>j. map (\<lambda>k. reading k1_set [a1_get, a2_get] [-5, -4, -3, -2, -1, 0, 1, 2, 3, 4] w0 k j)
                 [0..<10])
          [0..<2]"
    by (rule exI [where x = ds2], rule exI [where x = disk2], rule exI [where x = w2])
      (intro conjI cell names lens setp two vals)
qed

theorem sweep_records_every_setting_witness:
  "arrays (fst demo_run) = (''volt_set'', [1, 2, 3]) # measured_arrays (fst demo_run) \<and>
   map fst (measured_arrays (fst demo_run)) = [''volt_0'', ''volt_1''] \<and>
   map snd (measured_arrays (fst demo_run)) = [[-1, -2, -3], [2, 4, 6]] \<and>
   snd (snd demo_run) = 3 \<and>
   length (measured_arrays (fst demo_run)) = 2"
proof -
  let ?sp = "\<lparr>sp_name = ''volt'', sp_set = (\<lambda>v (w::rat). v)\<rparr>"
  let ?ps = "[\<lparr>mp_outputs = [(''volt'', \<lambda>w::rat. (- w, w))]\<rparr>,
              \<lparr>mp_outputs = [(''volt'', \<lambda>w. (2 * w, w))]\<rparr>]"
  have run: "run_loop ?sp [1, 2, 3] 0 ?ps ''testsweep'' Map.empty (0::rat) =
      (fst demo_run, fst (snd demo_run), snd (snd demo_run))"
    by (simp add: demo_run_def)
  have single: "\<forall>p\<in>set ?ps. length (mp_outputs p) = 1"
    by simp
  note T = sweep_records_every_setting [THEN conjunct1, THEN mp, OF run]
  from T have a: "arrays (fst demo_run) = (''volt_set'', [1, 2, 3]) # measured_arrays (fst demo_run)"
    by simp
  from T have n: "map fst (measured_arrays (fst demo_run)) = [''volt_0'', ''volt_1'']"
    by (simp add: array_ids_def measured_names_def enumerate_eq_zip upt_rec string_of_nat.simps)
  from T have v: "map snd (measured_arrays (fst demo_run)) = [[-1, -2, -3], [2, 4, 6]]"
    by (simp add: getters_def reading_def state_before_def after_readings_def upt_rec)
  from T have w: "snd (snd demo_run) = 3"
    by (simp add: getters_def state_before_def after_readings_def)
  from T single have l: "length (measured_arrays (fst demo_run)) = 2"
    by simp
  from a n v w l show ?thesis by blast
qed

text \<open>
  C1 as stated fails for the notebook's own first sweep: \<open>each(curr)\<close> has one parameter
  and gives two measured arrays, \<open>current\<close> and \<open>volt\<close>.
\<close>

theorem sweep_of_curr_counterexample:
  "map fst (arrays (fst first_sweep_demo)) = [''volt_set'', ''current'', ''volt''] \<and>
   length [demo_curr] = 1 \<and>
   length (measured_arrays (fst first_sweep_demo)) = 2 \<and>
   length (measured_arrays (fst first_sweep_demo)) \<noteq> length [demo_curr]"
  by (simp add: first_sweep_demo_def demo_curr_def run_loop_def measured_arrays_def array_ids_def
      measured_names_def enumerate_eq_zip upt_rec Let_def split_beta)

text \<open>
  C4. The dataset that \<open>run\<close> produces carries the location it was given and is stored
  under it: \<open>Loop(...).each(...).run(location='testsweep', overwrite=True)\<close> gives a
  dataset whose location is \<open>testsweep\<close>.
\<close>

theorem run_dataset_keyed_by_location:
  "(run_loop sp settings delay ps loc disk w = (ds, disk', w') \<longrightarrow>
      location ds = loc \<and> disk' loc = Some ds) \<and>
   (\<exists>ds2 disk2 w2.
      loop2_cell k1_set a1_get a2_get disk0 w0 = Inr (ds2, disk2, w2) \<and>
      location ds2 = ''testsweep'' \<and> disk2 ''testsweep'' = Some ds2)"
proof (intro conjI impI)
  assume run: "run_loop sp settings delay ps loc disk w = (ds, disk', w')"
  show "location ds = loc" by (rule run_loop_arrays(5) [OF run])
  show "disk' loc = Some ds" by (rule run_loop_arrays(6) [OF run])
next
  obtain ds2 disk2 w2 where
    cell: "loop2_cell k1_set a1_get a2_get disk0 w0 = Inr (ds2, disk2, w2)" and
    run: "run_loop (k1_volt k1_set) [-5, -4, -3, -2, -1, 0, 1, 2, 3, 4] 0
       [agilent_volt a1_get, agilent_volt a2_get] ''testsweep'' disk0 w0 = (ds2, disk2, w2)"
    by (rule loop2_cell_dataset)
  show "\<exists>ds2 disk2 w2.
      loop2_cell k1_set a1_get a2_get disk0 w0 = Inr (ds2, disk2, w2) \<and>
      location ds2 = ''testsweep'' \<and> disk2 ''testsweep'' = Some ds2"
    by (rule exI [where x = ds2], rule exI [where x = disk2], rule exI [where x = w2])
      (intro conjI cell run_loop_arrays(5) [OF run] run_loop_arrays(6) [OF run])
qed

theorem run_dataset_keyed_by_location_witness:
  "location (fst demo_run) = ''testsweep'' \<and>
   fst (snd demo_run) ''testsweep'' = Some (fst demo_run)"
proof -
  have run: "run_loop \<lparr>sp_name = ''volt'', sp_set = (\<lambda>v w. v)\<rparr> [1, 2, 3] 0
     [\<lparr>mp_outputs = [(''volt'', \<lambda>w. (- w, w))]\<rparr>, \<lparr>mp_outputs = [(''volt'', \<lambda>w. (2 * w, w))]\<rparr>]
     ''testsweep'' Map.empty (0::rat) = (fst demo_run, fst (snd demo_run), snd (snd demo_run))"
    by (simp add: demo_run_def)
  from run_dataset_keyed_by_location [THEN conjunct1, THEN mp, OF run]
  show ?thesis by simp
qed

section \<open>Properties of the cells\<close>

lemma unhandled_Nil: "unhandled [] None"
  by (simp add: unhandled_def)

lemma unhandled_single: "unhandled [(c, r)] r"
  unfolding unhandled_def
  by (cases r) (auto intro: exI [of _ "Suc 0"] exI [of _ 0])

lemma unhandled_append:
  assumes "unhandled new1 None" and "unhandled new2 r"
  shows "unhandled (new1 @ new2) r"
proof -
  from assms obtain k1 k2 where
    "map snd new1 = replicate k1 None"
    "map snd new2 = replicate k2 None @ (case r of None \<Rightarrow> [] | Some e \<Rightarrow> [Some e])"
    by (auto simp: unhandled_def)
  then have "map snd (new1 @ new2) =
      replicate (k1 + k2) None @ (case r of None \<Rightarrow> [] | Some e \<Rightarrow> [Some e])"
    by (simp add: replicate_add)
  then show ?thesis unfolding unhandled_def ..
qed

lemma unhandled_raise:
  assumes "unhandled new r" and "(c, Some e) \<in> set new"
  shows "r = Some e \<and> last new = (c, Some e) \<and> (\<forall>x\<in>set (butlast new). snd x = None)"
proof -
  from assms(1) obtain k where
    k: "map snd new = replicate k None @ (case r of None \<Rightarrow> [] | Some e \<Rightarrow> [Some e])"
    unfolding unhandled_def ..
  from assms(2) have "Some e \<in> set (map snd new)" by force
  with k have r: "r = Some e" by (cases r) auto
  from assms(2) have ne: "new \<noteq> []" by auto
  have "butlast (map snd new) = replicate k None"
    using k r by simp
  then have bl: "map snd (butlast new) = replicate k None"
    by (simp add: map_butlast)
  have rest: "\<forall>x\<in>set (butlast new). snd x = None"
  proof
    fix x assume "x \<in> set (butlast new)"
    then have "snd x \<in> set (map snd (butlast new))" by simp
    with bl show "snd x = None" by simp
  qed
  have "set (butlast new @ [last new]) = set (butlast new) \<union> {last new}"
    by simp
  with ne have "set new = set (butlast new) \<union> {last new}"
    by simp
  with assms(2) rest have "last new = (c, Some e)" by auto
  with r rest show ?thesis by simp
qed

lemma do_call_trace:
  "do_call env c nb = (r, nb1) \<Longrightarrow> trace nb1 = trace nb @ [(c, raised r)]"
  by (auto simp: do_call_def raised_def split_beta)

lemma do_sleep_trace: "trace (do_sleep env nb) = trace nb"
  by (simp add: do_sleep_def)

lemma Timer_exit_trace:
  "Timer_exit env name t nb = (b, nb1) \<Longrightarrow> \<not> b \<and> trace nb1 = trace nb \<and> lib_state nb1 = lib_state nb"
  by (auto simp: Timer_exit_def Let_def split: option.splits if_splits)

lemma poll_calls_unhandled:
  assumes "poll (do_call env c) (do_sleep env) nb = Some (r, nb1)"
  shows "\<exists>new. trace nb1 = trace nb @ new \<and> unhandled new (raised r)"
proof -
  have "do_call env c = do_call env c \<and> do_sleep env = do_sleep env \<longrightarrow>
        (\<exists>new. trace (snd (r, nb1)) = trace nb @ new \<and> unhandled new (raised (fst (r, nb1))))"
  proof (rule poll.raw_induct
      [where P = "\<lambda>sync sleep d y. sync = do_call env c \<and> sleep = do_sleep env \<longrightarrow>
          (\<exists>new. trace (snd y) = trace d @ new \<and> unhandled new (raised (fst y)))"])
    show "poll (do_call env c) (do_sleep env) nb = Some (r, nb1)" by (rule assms)
  next
    fix p :: "'a notebook sync_op \<Rightarrow> ('a notebook \<Rightarrow> 'a notebook) \<Rightarrow> 'a notebook
        \<Rightarrow> ((exn + unit) \<times> 'a notebook) option"
      and sync sleep d y
    assume IH: "\<And>sync sleep d y. p sync sleep d = Some y \<Longrightarrow>
        sync = do_call env c \<and> sleep = do_sleep env \<longrightarrow>
          (\<exists>new. trace (snd y) = trace d @ new \<and> unhandled new (raised (fst y)))"
      and body: "(case sync d of (Inl e, d') \<Rightarrow> Some (Inl e, d')
                  | (Inr b, d') \<Rightarrow> if b then p sync sleep (sleep d') else Some (Inr (), d'))
                 = Some y"
    show "sync = do_call env c \<and> sleep = do_sleep env \<longrightarrow>
          (\<exists>new. trace (snd y) = trace d @ new \<and> unhandled new (raised (fst y)))"
    proof
      assume eqs: "sync = do_call env c \<and> sleep = do_sleep env"
      obtain o1 d' where sd: "do_call env c d = (o1, d')" by (cases "do_call env c d")
      then have tr: "trace d' = trace d @ [(c, raised o1)]" by (rule do_call_trace)
      show "\<exists>new. trace (snd y) = trace d @ new \<and> unhandled new (raised (fst y))"
      proof (cases "o1 = Inr True")
        case False
        with body eqs sd have "snd y = d'" and "raised (fst y) = raised o1"
          by (auto simp: raised_def split: sum.splits if_splits)
        with tr have "trace (snd y) = trace d @ [(c, raised o1)] \<and>
            unhandled [(c, raised o1)] (raised (fst y))"
          by (simp add: unhandled_single)
        then show ?thesis ..
      next
        case True
        with body eqs sd have "p sync sleep (do_sleep env d') = Some y" by simp
        from IH [OF this] eqs obtain new where
          new: "trace (snd y) = trace (do_sleep env d') @ new" "unhandled new (raised (fst y))"
          by blast
        from True have "unhandled [(c, raised o1)] None"
          using unhandled_single [of c None] by (simp add: raised_def)
        then have "unhandled ([(c, raised o1)] @ new) (raised (fst y))"
          using new(2) by (rule unhandled_append)
        with new(1) tr have "trace (snd y) = trace d @ ([(c, raised o1)] @ new) \<and>
            unhandled ([(c, raised o1)] @ new) (raised (fst y))"
          by (simp add: do_sleep_trace)
        then show ?thesis ..
      qed
    qed
  qed
  then show ?thesis by simp
qed

lemma bare_call_seen:
  "bare_call env c (seen nb) = (fst (do_call env c nb), seen (snd (do_call env c nb)))"
  by (simp add: bare_call_def do_call_def seen_def raised_def split_beta)

lemma bare_sleep_seen: "bare_sleep env (seen nb) = seen (do_sleep env nb)"
  by (simp add: bare_sleep_def do_sleep_def seen_def)

lemma poll_seen:
  "poll (bare_call env c) (bare_sleep env) (seen nb) =
     map_option (\<lambda>x. (fst x, seen (snd x))) (poll (do_call env c) (do_sleep env) nb)"
  by (rule poll_simulation) (rule bare_call_seen, rule bare_sleep_seen)

lemma Timer_exit_seen:
  "fst (Timer_exit env name t nb) = False \<and> seen (snd (Timer_exit env name t nb)) = seen nb"
  by (auto simp: Timer_exit_def Let_def seen_def split: option.splits)

lemma lib_run_append:
  "lib_run env (xs @ ys) st =
     (case lib_run env xs st of
        None \<Rightarrow> None
      | Some (Some e, st1) \<Rightarrow> Some (Some e, st1)
      | Some (None, st1) \<Rightarrow> lib_run env ys st1)"
proof (induction env xs st rule: lib_run.induct)
  case (1 env st)
  show ?case by simp
next
  case (2 env c rest st)
  then show ?case
    by (cases "bare_call env c st"; cases "fst (bare_call env c st)") auto
next
  case (3 env c rest st)
  then show ?case
    by (auto split: option.splits sum.splits)
qed

lemma exec_lib_run:
  "no_handler s \<Longrightarrow>
     map_option (apsnd seen) (exec_stmt env s nb) = lib_run env (items_of_stmt s) (seen nb)"
  "no_handler_block ss \<Longrightarrow>
     map_option (apsnd seen) (exec_block env ss nb) = lib_run env (items_of ss) (seen nb)"
proof (induction env s nb and env ss nb rule: exec_stmt_exec_block.induct)
  case (1 env c nb)
  show ?case
    by (cases "do_call env c nb"; cases "fst (do_call env c nb)")
       (auto simp: bare_call_seen)
next
  case (2 env name body nb)
  from 2(2) have nh: "no_handler_block body" by simp
  from 2(1) [OF refl nh] have IH:
    "map_option (apsnd seen) (exec_block env body nb) = lib_run env (items_of body) (seen nb)" .
  show ?case
  proof (cases "exec_block env body nb")
    case None
    with IH show ?thesis by simp
  next
    case (Some x)
    obtain r nb1 where x: "x = (r, nb1)" by (cases x)
    from Timer_exit_seen [of env name "Timer_enter env nb" nb1]
    have "\<exists>nb2. Timer_exit env name (Timer_enter env nb) nb1 = (False, nb2) \<and> seen nb2 = seen nb1"
      by (cases "Timer_exit env name (Timer_enter env nb) nb1") simp
    then obtain nb2 where te: "Timer_exit env name (Timer_enter env nb) nb1 = (False, nb2)"
      and s: "seen nb2 = seen nb1" by blast
    from Some x te have "exec_stmt env (With_Timer name body) nb = Some (r, nb2)"
      by (simp add: Let_def)
    moreover from IH Some x have "lib_run env (items_of body) (seen nb) = Some (r, seen nb1)"
      by simp
    ultimately show ?thesis using s by simp
  qed
next
  case (3 env c nb)
  show ?case
    by (auto simp: poll_seen split: option.splits sum.splits)
next
  case (4 env body handler nb)
  then show ?case by simp
next
  case (5 env nb)
  show ?case by simp
next
  case (6 env s ss nb)
  from 6(3) have nhs: "no_handler s" and nhss: "no_handler_block ss" by simp_all
  from 6(1) [OF nhs] have IH1:
    "map_option (apsnd seen) (exec_stmt env s nb) = lib_run env (items_of_stmt s) (seen nb)" .
  show ?case
  proof (cases "exec_stmt env s nb")
    case None
    with IH1 show ?thesis by (simp add: lib_run_append)
  next
    case (Some x)
    obtain r nb1 where x: "x = (r, nb1)" by (cases x)
    from IH1 Some x have l1: "lib_run env (items_of_stmt s) (seen nb) = Some (r, seen nb1)"
      by simp
    show ?thesis
    proof (cases r)
      case (Some e)
      with \<open>exec_stmt env s nb = Some x\<close> x l1 show ?thesis
        by (simp add: lib_run_append)
    next
      case None
      from 6(2) [OF \<open>exec_stmt env s nb = Some x\<close> x [symmetric] None nhss]
      have "map_option (apsnd seen) (exec_block env ss nb1) = lib_run env (items_of ss) (seen nb1)" .
      with \<open>exec_stmt env s nb = Some x\<close> x l1 None show ?thesis
        by (simp add: lib_run_append)
    qed
  qed
qed


lemma exec_block_seen:
  assumes "no_handler_block cell"
    and "lib_run env (items_of cell) (lib_state nb, trace nb) = Some (r, l, tr)"
  shows "\<exists>nb'. exec_block env cell nb = Some (r, nb') \<and> lib_state nb' = l \<and> trace nb' = tr"
proof -
  from exec_lib_run(2) [OF assms(1), of env nb] assms(2)
  have "map_option (apsnd seen) (exec_block env cell nb) = Some (r, l, tr)"
    by (simp add: seen_def)
  then obtain x where x: "exec_block env cell nb = Some x" and "apsnd seen x = (r, l, tr)"
    by auto
  then have "x = (r, snd x)" "lib_state (snd x) = l" "trace (snd x) = tr"
    by (cases x; simp add: seen_def)+
  with x show ?thesis by metis
qed

lemma exec_block_never:
  assumes "no_handler_block cell"
    and "lib_run env (items_of cell) (lib_state nb, trace nb) = None"
  shows "exec_block env cell nb = None"
  using exec_lib_run(2) [OF assms(1), of env nb] assms(2) by (simp add: seen_def)

lemma lib_after_Nil: "lib_after env [] l = l"
  by (simp add: lib_after_def)

lemma lib_after_Cons: "lib_after env (c # cs) l = lib_after env cs (snd (env_lib env c l))"
  by (simp add: lib_after_def)

lemma all_return_Cons:
  "all_return env (c # cs) l \<longleftrightarrow>
     raised (fst (env_lib env c l)) = None \<and> all_return env cs (snd (env_lib env c l))"
proof
  assume a: "all_return env (c # cs) l"
  then have "raised (fst (env_lib env ((c # cs) ! 0) (lib_after env (take 0 (c # cs)) l))) = None"
    unfolding all_return_def by (metis length_Cons zero_less_Suc)
  then have first: "raised (fst (env_lib env c l)) = None" by (simp add: lib_after_Nil)
  have "all_return env cs (snd (env_lib env c l))"
    unfolding all_return_def
  proof (intro allI impI)
    fix k assume "k < length cs"
    then have "Suc k < length (c # cs)" by simp
    with a have "raised (fst (env_lib env ((c # cs) ! Suc k)
        (lib_after env (take (Suc k) (c # cs)) l))) = None"
      unfolding all_return_def by blast
    then show "raised (fst (env_lib env (cs ! k)
        (lib_after env (take k cs) (snd (env_lib env c l))))) = None"
      by (simp add: lib_after_Cons)
  qed
  with first show "raised (fst (env_lib env c l)) = None \<and>
      all_return env cs (snd (env_lib env c l))" ..
next
  assume a: "raised (fst (env_lib env c l)) = None \<and> all_return env cs (snd (env_lib env c l))"
  show "all_return env (c # cs) l"
    unfolding all_return_def
  proof (intro allI impI)
    fix k assume k: "k < length (c # cs)"
    show "raised (fst (env_lib env ((c # cs) ! k) (lib_after env (take k (c # cs)) l))) = None"
    proof (cases k)
      case 0
      with a show ?thesis by (simp add: lib_after_Nil)
    next
      case (Suc j)
      with k have "j < length cs" by simp
      with a have "raised (fst (env_lib env (cs ! j)
          (lib_after env (take j cs) (snd (env_lib env c l))))) = None"
        unfolding all_return_def by blast
      with Suc show ?thesis by (simp add: lib_after_Cons)
    qed
  qed
qed

lemma lib_run_calls_return:
  "all_return env cs l \<Longrightarrow>
     lib_run env (map Do cs @ rest) (l, tr) =
       lib_run env rest (lib_after env cs l, tr @ map (\<lambda>c. (c, None)) cs)"
proof (induction cs arbitrary: l tr)
  case Nil
  show ?case by (simp add: lib_after_Nil)
next
  case (Cons c cs)
  from Cons.prems have first: "raised (fst (env_lib env c l)) = None"
    and rest: "all_return env cs (snd (env_lib env c l))"
    by (simp_all add: all_return_Cons)
  from first obtain b where b: "fst (env_lib env c l) = Inr b"
    by (cases "fst (env_lib env c l)") (simp_all add: raised_def)
  then have "bare_call env c (l, tr) = (Inr b, snd (env_lib env c l), tr @ [(c, None)])"
    by (simp add: bare_call_def split_beta raised_def)
  then have "lib_run env (map Do (c # cs) @ rest) (l, tr) =
      lib_run env (map Do cs @ rest) (snd (env_lib env c l), tr @ [(c, None)])"
    by simp
  with Cons.IH [OF rest, of "tr @ [(c, None)]"] show ?case
    by (simp add: lib_after_Cons)
qed

lemma lib_run_call_raises:
  "fst (env_lib env c l) = Inl e \<Longrightarrow>
     lib_run env (Do c # rest) (l, tr) = Some (Some e, snd (env_lib env c l), tr @ [(c, Some e)])"
  by (simp add: bare_call_def split_beta raised_def)

lemma before_call_bare:
  "(\<forall>k<n. fst (env_lib env c (round_state env c k l)) = Inr True) \<Longrightarrow>
     before_call (bare_call env c) (bare_sleep env) n (l, tr) =
       (round_state env c n l, tr @ replicate n (c, None))"
proof (induction n arbitrary: l tr)
  case 0
  show ?case by simp
next
  case (Suc n)
  from Suc.prems have first: "fst (env_lib env c (round_state env c 0 l)) = Inr True"
    by blast
  have rest: "\<forall>k<n. fst (env_lib env c
      (round_state env c k (env_sleep env (snd (env_lib env c l))))) = Inr True"
  proof (intro allI impI)
    fix k assume "k < n"
    then have "Suc k < Suc n" by simp
    with Suc.prems have "fst (env_lib env c (round_state env c (Suc k) l)) = Inr True" by blast
    then show "fst (env_lib env c
      (round_state env c k (env_sleep env (snd (env_lib env c l))))) = Inr True" by simp
  qed
  from first have "bare_sleep env (snd (bare_call env c (l, tr))) =
      (env_sleep env (snd (env_lib env c l)), tr @ [(c, None)])"
    by (simp add: bare_call_def bare_sleep_def split_beta raised_def)
  with Suc.IH [OF rest, of "tr @ [(c, None)]"] show ?case
    by (simp add: replicate_app_Cons_same)
qed

lemma stops_at_bare:
  assumes "\<forall>k<n. fst (env_lib env c (round_state env c k l)) = Inr True"
    and "fst (env_lib env c (round_state env c n l)) \<noteq> Inr True"
  shows "stops_at (bare_call env c) (bare_sleep env) (l, tr) n"
  unfolding stops_at_def
proof (intro conjI allI impI)
  show "fst (bare_call env c (before_call (bare_call env c) (bare_sleep env) n (l, tr))) \<noteq> Inr True"
    using assms by (simp add: before_call_bare bare_call_def split_beta)
next
  fix k assume k: "k < n"
  with assms(1) have "\<forall>j<k. fst (env_lib env c (round_state env c j l)) = Inr True" by simp
  then have "before_call (bare_call env c) (bare_sleep env) k (l, tr) =
       (round_state env c k l, tr @ replicate k (c, None))" by (rule before_call_bare)
  with assms(1) k
  show "fst (bare_call env c (before_call (bare_call env c) (bare_sleep env) k (l, tr))) = Inr True"
    by (simp add: bare_call_def split_beta)
qed

lemma poll_bare:
  assumes "\<forall>k<n. fst (env_lib env c (round_state env c k l)) = Inr True"
    and "fst (env_lib env c (round_state env c n l)) = r" and "r \<noteq> Inr True"
  shows "poll (bare_call env c) (bare_sleep env) (l, tr) =
     Some (loop_result r, snd (env_lib env c (round_state env c n l)),
           tr @ replicate n (c, None) @ [(c, raised r)])"
proof -
  from assms have "stops_at (bare_call env c) (bare_sleep env) (l, tr) n"
    by (intro stops_at_bare) simp_all
  from poll_stops_at [OF this] assms show ?thesis
    by (simp add: before_call_bare bare_call_def split_beta)
qed

lemma poll_bare_never:
  assumes "\<forall>k. fst (env_lib env c (round_state env c k l)) = Inr True"
  shows "poll (bare_call env c) (bare_sleep env) (l, tr) = None"
proof (rule poll_None, intro allI notI)
  fix n assume "stops_at (bare_call env c) (bare_sleep env) (l, tr) n"
  then have "fst (bare_call env c (before_call (bare_call env c) (bare_sleep env) n (l, tr)))
      \<noteq> Inr True" by (simp add: stops_at_def)
  moreover from assms have "before_call (bare_call env c) (bare_sleep env) n (l, tr) =
       (round_state env c n l, tr @ replicate n (c, None))"
    by (intro before_call_bare) simp
  ultimately show False using assms by (simp add: bare_call_def split_beta)
qed

lemma exec_unhandled:
  "no_handler s \<Longrightarrow>
     (exec_stmt env s nb = Some (r, nb') \<longrightarrow> (\<exists>new. trace nb' = trace nb @ new \<and> unhandled new r))"
  "no_handler_block ss \<Longrightarrow>
     (exec_block env ss nb = Some (r, nb') \<longrightarrow> (\<exists>new. trace nb' = trace nb @ new \<and> unhandled new r))"
proof (induction env s nb and env ss nb arbitrary: r nb' and r nb' rule: exec_stmt_exec_block.induct)
  case (1 env c nb)
  show ?case
  proof
    assume ex: "exec_stmt env (Call c) nb = Some (r, nb')"
    obtain o1 nb1 where dc: "do_call env c nb = (o1, nb1)" by (cases "do_call env c nb")
    with ex have "nb' = nb1" "r = raised o1"
      by (auto simp: raised_def split: sum.splits)
    with do_call_trace [OF dc] have "trace nb' = trace nb @ [(c, r)] \<and> unhandled [(c, r)] r"
      by (simp add: unhandled_single)
    then show "\<exists>new. trace nb' = trace nb @ new \<and> unhandled new r" ..
  qed
next
  case (2 env name body nb)
  show ?case
  proof
    assume ex: "exec_stmt env (With_Timer name body) nb = Some (r, nb')"
    then obtain r1 nb1 where body: "exec_block env body nb = Some (r1, nb1)"
      by (auto simp: Let_def split: option.splits)
    obtain b nb2 where te: "Timer_exit env name (Timer_enter env nb) nb1 = (b, nb2)"
      by (cases "Timer_exit env name (Timer_enter env nb) nb1")
    from Timer_exit_trace [OF te] have b: "\<not> b" and tr: "trace nb2 = trace nb1" by simp_all
    from ex body te b have eqs: "r = r1" "nb' = nb2" by (simp_all add: Let_def)
    from 2(2) have "no_handler_block body" by simp
    with 2(1) [OF refl, of r1 nb1] body tr eqs show "\<exists>new. trace nb' = trace nb @ new \<and> unhandled new r"
      by simp
  qed
next
  case (3 env c nb)
  show ?case
  proof
    assume ex: "exec_stmt env (Poll_sync c) nb = Some (r, nb')"
    then obtain o1 where p: "poll (do_call env c) (do_sleep env) nb = Some (o1, nb')"
      and r: "r = raised o1"
      by (auto simp: raised_def split: option.splits sum.splits)
    from poll_calls_unhandled [OF p] r
    show "\<exists>new. trace nb' = trace nb @ new \<and> unhandled new r" by simp
  qed
next
  case (4 env body handler nb)
  then show ?case by simp
next
  case (5 env nb)
  show ?case by (auto simp: unhandled_Nil)
next
  case (6 env s ss nb)
  from 6(3) have nhs: "no_handler s" and nhss: "no_handler_block ss" by simp_all
  show ?case
  proof
    assume ex: "exec_block env (s # ss) nb = Some (r, nb')"
    then obtain r1 nb1 where st: "exec_stmt env s nb = Some (r1, nb1)"
      by (auto split: option.splits)
    from 6(1) [OF nhs, of r1 nb1] st obtain new1 where
      new1: "trace nb1 = trace nb @ new1" "unhandled new1 r1" by blast
    show "\<exists>new. trace nb' = trace nb @ new \<and> unhandled new r"
    proof (cases r1)
      case (Some e)
      with ex st have "r = r1" "nb' = nb1" by simp_all
      with new1 show ?thesis by blast
    next
      case None
      with ex st have rest: "exec_block env ss nb1 = Some (r, nb')" by simp
      from 6(2) [OF st refl None nhss, of r nb'] rest obtain new2 where
        new2: "trace nb' = trace nb1 @ new2" "unhandled new2 r" by blast
      from new1 new2 None have "trace nb' = trace nb @ (new1 @ new2) \<and> unhandled (new1 @ new2) r"
        by (simp add: unhandled_append)
      then show ?thesis ..
    qed
  qed
qed


lemma all_return_Nil: "all_return env [] l"
  by (simp add: all_return_def)

lemma notebook_cells_no_handler: "\<forall>cell\<in>set notebook_cells. no_handler_block cell"
  by (simp add: notebook_cells_def cell_instruments_def cell_snapshot_def cell_first_sweep_def
        cell_sync_def cell_stations_def cell_time_stations_def cell_time_readings_def
        cell_time_loops_def cell_time_loop1_polled_def cell_time_loop2_polled_def loop_calls_def)

lemma try_handles:
  "exec_block failing_run_env
     [Try cell_time_loops [Call (Other_call, ''print(error)'')]] fresh_notebook =
   Some (None,
       \<lparr>lib_state = 5,
        trace = [((Other_call, ''k1.volt[-5:5:1]''), None),
                 ((Constructor, ''qc.Loop(k1.volt[-5:5:1], 0)''), None),
                 ((Other_call, ''.each(a1.volt)''), None),
                 ((Loop_run, ''.run(location=testsweep, overwrite=True, background=False)''),
                  Some (Exn ''VisaIOError'')),
                 ((Other_call, ''print(error)''), None)],
        printed = [Name_line ''Time Loop 1'', Elapsed_line 4 0]\<rparr>)"
  by (simp add: cell_time_loops_def loop_calls_def failing_run_env_def fresh_notebook_def
        do_call_def Timer_enter_def Timer_exit_def)

text \<open>
  C7. No cell of the notebook holds a handler, and a block without one does with the library
  exactly what the bare run of its calls does. So when the calls before a call return and
  that call raises, the block ends there with that exception: the state of the library is
  the one the raising call left, the calls made are the earlier ones, once each, and the
  raising one last, and no call written after it is made. The same holds for a \<open>sync\<close>
  that raises in the polling loop, after the rounds in which it returned a truthy value; when
  every call returns, the block ends with no exception, and when \<open>sync\<close> is truthy for
  ever, the block never ends. \<open>with Timer(...)\<close> is the only notebook code on the way
  out: \<open>__exit__\<close> prints the name and the elapsed time, returns \<open>None\<close> and so passes
  on the outcome of its body, leaving the library as the body left it.
\<close>

theorem notebook_installs_no_handler:
  "(\<forall>cell\<in>set notebook_cells. no_handler_block cell) \<and>
   (no_handler_block cell \<longrightarrow>
      map_option (apsnd seen) (exec_block env cell nb) = lib_run env (items_of cell) (seen nb)) \<and>
   (no_handler_block cell \<and> items_of cell = map Do cs @ Do c # post \<and>
    all_return env cs (lib_state nb) \<and>
    fst (env_lib env c (lib_after env cs (lib_state nb))) = Inl e \<longrightarrow>
      (\<exists>nb'. exec_block env cell nb = Some (Some e, nb') \<and>
         lib_state nb' = snd (env_lib env c (lib_after env cs (lib_state nb))) \<and>
         trace nb' = trace nb @ map (\<lambda>c. (c, None)) cs @ [(c, Some e)])) \<and>
   (no_handler_block cell \<and> items_of cell = map Do cs \<and> all_return env cs (lib_state nb) \<longrightarrow>
      (\<exists>nb'. exec_block env cell nb = Some (None, nb') \<and>
         lib_state nb' = lib_after env cs (lib_state nb) \<and>
         trace nb' = trace nb @ map (\<lambda>c. (c, None)) cs)) \<and>
   (no_handler_block cell \<and> items_of cell = map Do cs @ Poll c # post \<and>
    all_return env cs (lib_state nb) \<and>
    (\<forall>k<n. fst (env_lib env c (round_state env c k (lib_after env cs (lib_state nb)))) = Inr True) \<and>
    fst (env_lib env c (round_state env c n (lib_after env cs (lib_state nb)))) = Inl e \<longrightarrow>
      (\<exists>nb'. exec_block env cell nb = Some (Some e, nb') \<and>
         lib_state nb' =
           snd (env_lib env c (round_state env c n (lib_after env cs (lib_state nb)))) \<and>
         trace nb' =
           trace nb @ map (\<lambda>c. (c, None)) cs @ replicate n (c, None) @ [(c, Some e)])) \<and>
   (no_handler_block cell \<and> items_of cell = map Do cs @ [Poll c] \<and>
    all_return env cs (lib_state nb) \<and>
    (\<forall>k<n. fst (env_lib env c (round_state env c k (lib_after env cs (lib_state nb)))) = Inr True) \<and>
    fst (env_lib env c (round_state env c n (lib_after env cs (lib_state nb)))) = Inr False \<longrightarrow>
      (\<exists>nb'. exec_block env cell nb = Some (None, nb') \<and>
         lib_state nb' =
           snd (env_lib env c (round_state env c n (lib_after env cs (lib_state nb)))) \<and>
         trace nb' = trace nb @ map (\<lambda>c. (c, None)) cs @ replicate (Suc n) (c, None))) \<and>
   (no_handler_block cell \<and> items_of cell = map Do cs @ Poll c # post \<and>
    all_return env cs (lib_state nb) \<and>
    (\<forall>k. fst (env_lib env c (round_state env c k (lib_after env cs (lib_state nb)))) = Inr True)
      \<longrightarrow> exec_block env cell nb = None) \<and>
   (no_handler_block cell \<and> exec_block env cell nb = Some (r, nb') \<longrightarrow>
      (\<exists>new. trace nb' = trace nb @ new \<and> unhandled new r \<and>
         (\<forall>c e. (c, Some e) \<in> set new \<longrightarrow>
            r = Some e \<and> last new = (c, Some e) \<and> (\<forall>x\<in>set (butlast new). snd x = None)))) \<and>
   (exec_stmt env (With_Timer name body) nb = Some (r, nb') \<longrightarrow>
      (\<exists>nb1. exec_block env body nb = Some (r, nb1) \<and>
         trace nb' = trace nb1 \<and> lib_state nb' = lib_state nb1))"
proof (intro conjI impI)
  show "\<forall>cell\<in>set notebook_cells. no_handler_block cell"
    by (rule notebook_cells_no_handler)
next
  assume "no_handler_block cell"
  then show "map_option (apsnd seen) (exec_block env cell nb) =
      lib_run env (items_of cell) (seen nb)"
    by (rule exec_lib_run(2))
next
  assume a: "no_handler_block cell \<and> items_of cell = map Do cs @ Do c # post \<and>
    all_return env cs (lib_state nb) \<and>
    fst (env_lib env c (lib_after env cs (lib_state nb))) = Inl e"
  then have "lib_run env (items_of cell) (lib_state nb, trace nb) =
      Some (Some e, snd (env_lib env c (lib_after env cs (lib_state nb))),
            (trace nb @ map (\<lambda>c. (c, None)) cs) @ [(c, Some e)])"
    by (simp add: lib_run_calls_return lib_run_call_raises del: lib_run.simps)
  with a exec_block_seen [of cell env nb]
  show "\<exists>nb'. exec_block env cell nb = Some (Some e, nb') \<and>
         lib_state nb' = snd (env_lib env c (lib_after env cs (lib_state nb))) \<and>
         trace nb' = trace nb @ map (\<lambda>c. (c, None)) cs @ [(c, Some e)]"
    by simp
next
  assume a: "no_handler_block cell \<and> items_of cell = map Do cs \<and>
    all_return env cs (lib_state nb)"
  then have "lib_run env (items_of cell) (lib_state nb, trace nb) =
      Some (None, lib_after env cs (lib_state nb), trace nb @ map (\<lambda>c. (c, None)) cs)"
    using lib_run_calls_return [of env cs "lib_state nb" "[]" "trace nb"] by simp
  with a exec_block_seen [of cell env nb]
  show "\<exists>nb'. exec_block env cell nb = Some (None, nb') \<and>
         lib_state nb' = lib_after env cs (lib_state nb) \<and>
         trace nb' = trace nb @ map (\<lambda>c. (c, None)) cs"
    by simp
next
  let ?l = "lib_after env cs (lib_state nb)"
  assume a: "no_handler_block cell \<and> items_of cell = map Do cs @ Poll c # post \<and>
    all_return env cs (lib_state nb) \<and>
    (\<forall>k<n. fst (env_lib env c (round_state env c k ?l)) = Inr True) \<and>
    fst (env_lib env c (round_state env c n ?l)) = Inl e"
  have "poll (bare_call env c) (bare_sleep env) (?l, trace nb @ map (\<lambda>c. (c, None)) cs) =
     Some (loop_result (Inl e), snd (env_lib env c (round_state env c n ?l)),
           (trace nb @ map (\<lambda>c. (c, None)) cs) @ replicate n (c, None) @ [(c, raised (Inl e :: exn + bool))])"
    by (rule poll_bare) (use a in simp_all)
  with a have "lib_run env (items_of cell) (lib_state nb, trace nb) =
      Some (Some e, snd (env_lib env c (round_state env c n ?l)),
            trace nb @ map (\<lambda>c. (c, None)) cs @ replicate n (c, None) @ [(c, Some e)])"
    by (simp add: lib_run_calls_return loop_result_def raised_def)
  with a exec_block_seen [of cell env nb]
  show "\<exists>nb'. exec_block env cell nb = Some (Some e, nb') \<and>
         lib_state nb' = snd (env_lib env c (round_state env c n ?l)) \<and>
         trace nb' = trace nb @ map (\<lambda>c. (c, None)) cs @ replicate n (c, None) @ [(c, Some e)]"
    by simp
next
  let ?l = "lib_after env cs (lib_state nb)"
  assume a: "no_handler_block cell \<and> items_of cell = map Do cs @ [Poll c] \<and>
    all_return env cs (lib_state nb) \<and>
    (\<forall>k<n. fst (env_lib env c (round_state env c k ?l)) = Inr True) \<and>
    fst (env_lib env c (round_state env c n ?l)) = Inr False"
  have "poll (bare_call env c) (bare_sleep env) (?l, trace nb @ map (\<lambda>c. (c, None)) cs) =
     Some (loop_result (Inr False), snd (env_lib env c (round_state env c n ?l)),
           (trace nb @ map (\<lambda>c. (c, None)) cs) @ replicate n (c, None) @
             [(c, raised (Inr False))])"
    by (rule poll_bare) (use a in simp_all)
  with a have "lib_run env (items_of cell) (lib_state nb, trace nb) =
      Some (None, snd (env_lib env c (round_state env c n ?l)),
            trace nb @ map (\<lambda>c. (c, None)) cs @ replicate (Suc n) (c, None))"
    by (simp add: lib_run_calls_return loop_result_def raised_def replicate_append_same)
  with a exec_block_seen [of cell env nb]
  show "\<exists>nb'. exec_block env cell nb = Some (None, nb') \<and>
         lib_state nb' = snd (env_lib env c (round_state env c n ?l)) \<and>
         trace nb' = trace nb @ map (\<lambda>c. (c, None)) cs @ replicate (Suc n) (c, None)"
    by simp
next
  let ?l = "lib_after env cs (lib_state nb)"
  assume a: "no_handler_block cell \<and> items_of cell = map Do cs @ Poll c # post \<and>
    all_return env cs (lib_state nb) \<and>
    (\<forall>k. fst (env_lib env c (round_state env c k ?l)) = Inr True)"
  have "poll (bare_call env c) (bare_sleep env) (?l, trace nb @ map (\<lambda>c. (c, None)) cs) =
      None"
    by (rule poll_bare_never) (use a in simp)
  with a have "lib_run env (items_of cell) (lib_state nb, trace nb) = None"
    by (simp add: lib_run_calls_return)
  then show "exec_block env cell nb = None"
    by (rule exec_block_never [rotated]) (use a in simp)
next
  assume a: "no_handler_block cell \<and> exec_block env cell nb = Some (r, nb')"
  with exec_unhandled(2) [of cell env nb r nb'] obtain new where
    new: "trace nb' = trace nb @ new" "unhandled new r" by blast
  from new(2) have "\<forall>c e. (c, Some e) \<in> set new \<longrightarrow>
      r = Some e \<and> last new = (c, Some e) \<and> (\<forall>x\<in>set (butlast new). snd x = None)"
    by (intro allI impI) (rule unhandled_raise)
  with new show "\<exists>new. trace nb' = trace nb @ new \<and> unhandled new r \<and>
         (\<forall>c e. (c, Some e) \<in> set new \<longrightarrow>
            r = Some e \<and> last new = (c, Some e) \<and> (\<forall>x\<in>set (butlast new). snd x = None))"
    by blast
next
  assume ex: "exec_stmt env (With_Timer name body) nb = Some (r, nb')"
  then obtain r1 nb1 where body: "exec_block env body nb = Some (r1, nb1)"
    by (auto simp: Let_def split: option.splits)
  obtain b nb2 where te: "Timer_exit env name (Timer_enter env nb) nb1 = (b, nb2)"
    by (cases "Timer_exit env name (Timer_enter env nb) nb1")
  from Timer_exit_trace [OF te] have b: "\<not> b" and tr: "trace nb2 = trace nb1"
    and ls: "lib_state nb2 = lib_state nb1" by simp_all
  from ex body te b have "r = r1" "nb' = nb2" by (simp_all add: Let_def)
  with body tr ls show "\<exists>nb1. exec_block env body nb = Some (r, nb1) \<and>
         trace nb' = trace nb1 \<and> lib_state nb' = lib_state nb1"
    by blast
qed

theorem notebook_installs_no_handler_witness:
  "no_handler_block cell_time_loops \<and> no_handler_block cell_time_loop1_polled \<and>
   (\<exists>nb'. exec_block failing_run_env cell_time_loops fresh_notebook =
            Some (Some (Exn ''VisaIOError''), nb') \<and>
          lib_state nb' = 4 \<and>
          trace nb' =
            [((Other_call, ''k1.volt[-5:5:1]''), None),
             ((Constructor, ''qc.Loop(k1.volt[-5:5:1], 0)''), None),
             ((Other_call, ''.each(a1.volt)''), None),
             ((Loop_run, ''.run(location=testsweep, overwrite=True, background=False)''),
              Some (Exn ''VisaIOError''))]) \<and>
   (\<exists>nb'. exec_block failing_sync_env cell_time_loop1_polled fresh_notebook =
            Some (Some (Exn ''TimeoutError''), nb') \<and>
          lib_state nb' = 7 \<and>
          trace nb' =
            [((Other_call, ''k1.volt[-5:5:1]''), None),
             ((Constructor, ''qc.Loop(k1.volt[-5:5:1], 0)''), None),
             ((Other_call, ''.each(a1.volt)''), None),
             ((Loop_run, ''.run(location=testsweep, overwrite=True)''), None),
             ((DataSet_sync, ''data.sync()''), None),
             ((DataSet_sync, ''data.sync()''), None),
             ((DataSet_sync, ''data.sync()''), Some (Exn ''TimeoutError''))])"
proof -
  let ?cs1 = "[(Other_call, ''k1.volt[-5:5:1]''),
               (Constructor, ''qc.Loop(k1.volt[-5:5:1], 0)''),
               (Other_call, ''.each(a1.volt)'')]"
  let ?run1 = "(Loop_run, ''.run(location=testsweep, overwrite=True, background=False)'')"
  let ?post1 = "items_of
      (loop_calls ''a1.volt, a2.volt'' ''location=testsweep, overwrite=True, background=False'')"
  let ?cs2 = "[(Other_call, ''k1.volt[-5:5:1]''),
               (Constructor, ''qc.Loop(k1.volt[-5:5:1], 0)''),
               (Other_call, ''.each(a1.volt)''),
               (Loop_run, ''.run(location=testsweep, overwrite=True)'')]"
  let ?sync = "(DataSet_sync, ''data.sync()'')"
  have cells: "cell_time_loops \<in> set notebook_cells"
    "cell_time_loop1_polled \<in> set notebook_cells"
    by (simp_all add: notebook_cells_def)
  from notebook_installs_no_handler [THEN conjunct1] cells
  have nh: "no_handler_block cell_time_loops" "no_handler_block cell_time_loop1_polled"
    by blast+
  have hyp1: "no_handler_block cell_time_loops \<and>
      items_of cell_time_loops = map Do ?cs1 @ Do ?run1 # ?post1 \<and>
      all_return failing_run_env ?cs1 (lib_state fresh_notebook) \<and>
      fst (env_lib failing_run_env ?run1
            (lib_after failing_run_env ?cs1 (lib_state fresh_notebook))) =
        Inl (Exn ''VisaIOError'')"
    using nh(1)
    by (simp add: cell_time_loops_def loop_calls_def all_return_Cons all_return_Nil
          lib_after_Cons lib_after_Nil failing_run_env_def fresh_notebook_def raised_def)
  have run1: "\<exists>nb'. exec_block failing_run_env cell_time_loops fresh_notebook =
            Some (Some (Exn ''VisaIOError''), nb') \<and>
          lib_state nb' = 4 \<and>
          trace nb' = map (\<lambda>c. (c, None)) ?cs1 @ [(?run1, Some (Exn ''VisaIOError''))]"
    using notebook_installs_no_handler
      [THEN conjunct2, THEN conjunct2, THEN conjunct1, THEN mp, OF hyp1]
    by (simp add: lib_after_Cons lib_after_Nil failing_run_env_def fresh_notebook_def
          eval_nat_numeral)
  have hyp2: "no_handler_block cell_time_loop1_polled \<and>
      items_of cell_time_loop1_polled = map Do ?cs2 @ Poll ?sync # [] \<and>
      all_return failing_sync_env ?cs2 (lib_state fresh_notebook) \<and>
      (\<forall>k<2. fst (env_lib failing_sync_env ?sync
          (round_state failing_sync_env ?sync k
            (lib_after failing_sync_env ?cs2 (lib_state fresh_notebook)))) = Inr True) \<and>
      fst (env_lib failing_sync_env ?sync
          (round_state failing_sync_env ?sync 2
            (lib_after failing_sync_env ?cs2 (lib_state fresh_notebook)))) =
        Inl (Exn ''TimeoutError'')"
    using nh(2)
    by (simp add: cell_time_loop1_polled_def loop_calls_def all_return_Cons all_return_Nil
          lib_after_Cons lib_after_Nil failing_sync_env_def fresh_notebook_def raised_def
          eval_nat_numeral less_Suc_eq)
  have run2: "\<exists>nb'. exec_block failing_sync_env cell_time_loop1_polled fresh_notebook =
            Some (Some (Exn ''TimeoutError''), nb') \<and>
          lib_state nb' = 7 \<and>
          trace nb' = map (\<lambda>c. (c, None)) ?cs2 @ replicate 2 (?sync, None) @
             [(?sync, Some (Exn ''TimeoutError''))]"
    using notebook_installs_no_handler
      [THEN conjunct2, THEN conjunct2, THEN conjunct2, THEN conjunct2, THEN conjunct1,
       THEN mp, OF hyp2]
    by (simp add: lib_after_Cons lib_after_Nil failing_sync_env_def fresh_notebook_def
          eval_nat_numeral)
  from run1 have r1: "\<exists>nb'. exec_block failing_run_env cell_time_loops fresh_notebook =
            Some (Some (Exn ''VisaIOError''), nb') \<and>
          lib_state nb' = 4 \<and>
          trace nb' =
            [((Other_call, ''k1.volt[-5:5:1]''), None),
             ((Constructor, ''qc.Loop(k1.volt[-5:5:1], 0)''), None),
             ((Other_call, ''.each(a1.volt)''), None),
             ((Loop_run, ''.run(location=testsweep, overwrite=True, background=False)''),
              Some (Exn ''VisaIOError''))]"
    by simp
  from run2 have r2: "\<exists>nb'. exec_block failing_sync_env cell_time_loop1_polled fresh_notebook =
            Some (Some (Exn ''TimeoutError''), nb') \<and>
          lib_state nb' = 7 \<and>
          trace nb' =
            [((Other_call, ''k1.volt[-5:5:1]''), None),
             ((Constructor, ''qc.Loop(k1.volt[-5:5:1], 0)''), None),
             ((Other_call, ''.each(a1.volt)''), None),
             ((Loop_run, ''.run(location=testsweep, overwrite=True)''), None),
             ((DataSet_sync, ''data.sync()''), None),
             ((DataSet_sync, ''data.sync()''), None),
             ((DataSet_sync, ''data.sync()''), Some (Exn ''TimeoutError''))]"
    by (simp add: eval_nat_numeral)
  from nh r1 r2 show ?thesis by blast
qed

section \<open>Properties of the widget script\<close>

lemma state_of_class_button: "state_of_class (className b) = Inr (state_name b)"
  by (cases b) (simp_all add: state_of_class_def substr_def indexOf_def)

lemma click_js_state_button:
  "\<exists>w'. click_js_state (className b) w = Inr w' \<and> qcodes_state w' = Some (state_name b) \<and>
     timers w' = timers w \<and> v_updater w' = v_updater w \<and> next_timer w' = next_timer w \<and>
     v_interval w' = v_interval w \<and> m_interval w' = m_interval w \<and> sent w' = sent w \<and>
     comm_live w' = comm_live w \<and> output_area w' = output_area w \<and> others w' = others w \<and>
     clear_disabled w' = clear_disabled w \<and> view_class w' = view_class w"
  by (simp add: click_js_state_def state_of_class_button Let_def)

lemma display_subprocess_ok:
  "\<exists>w'. display_subprocess msg w = Inr w' \<and>
     timers w' = timers w \<and> v_updater w' = v_updater w \<and> next_timer w' = next_timer w \<and>
     v_interval w' = v_interval w \<and> m_interval w' = m_interval w \<and> sent w' = sent w \<and>
     comm_live w' = comm_live w \<and> others w' = others w \<and> view_class w' = view_class w \<and>
     output_area w' = (if msg = [] then output_area w else output_area w @ [Html msg]) \<and>
     (msg \<noteq> [] \<longrightarrow> \<not> clear_disabled w') \<and>
     (qcodes_state w' = qcodes_state w \<or> qcodes_state w' = Some ''docked'')"
proof -
  obtain w1 where w1: "click_js_state (className Docked_button) w = Inr w1"
    and keep: "qcodes_state w1 = Some (state_name Docked_button)"
     "timers w1 = timers w" "v_updater w1 = v_updater w" "next_timer w1 = next_timer w"
     "v_interval w1 = v_interval w" "m_interval w1 = m_interval w" "sent w1 = sent w"
     "comm_live w1 = comm_live w" "output_area w1 = output_area w" "others w1 = others w"
     "clear_disabled w1 = clear_disabled w" "view_class w1 = view_class w"
    using click_js_state_button [of Docked_button w] by blast
  show ?thesis
    using w1 keep by (simp add: display_subprocess_def Let_def)
qed


lemma display_ok:
  "\<exists>w'. display msg w = Inr w' \<and>
     timers w' = timers w \<and> v_updater w' = v_updater w \<and> next_timer w' = next_timer w \<and>
     v_interval w' = v_interval w \<and> m_interval w' = m_interval w \<and> sent w' = sent w \<and>
     comm_live w' = comm_live w \<and> others w' = others w \<and> view_class w' = view_class w \<and>
     (qcodes_state w' = qcodes_state w \<or> qcodes_state w' = Some ''docked'')"
proof (cases "view_class w")
  case SubprocessView
  with display_subprocess_ok [of msg w] show ?thesis
    by (auto simp: display_def)
qed (simp_all add: display_def)

lemma one_timer_clear: "one_timer w \<Longrightarrow> timers (clearInterval (v_updater w) w) = []"
  by (auto simp: one_timer_def clearInterval_def split: option.splits)

lemma setInterval_noop:
  "(case arg of None \<Rightarrow> m_interval w | Some v \<Rightarrow> v) = v_interval w \<Longrightarrow> setInterval arg w = w"
  by (simp add: setInterval_def)

lemma setInterval_change:
  assumes "one_timer w" and "(case arg of None \<Rightarrow> m_interval w | Some v \<Rightarrow> v) = v" and "v \<noteq> v_interval w"
  shows "v_interval (setInterval arg w) = v"
    and "v = 0 \<Longrightarrow> timers (setInterval arg w) = []"
    and "v \<noteq> 0 \<Longrightarrow> timers (setInterval arg w) = [(next_timer w, Times v 1000)] \<and>
           v_updater (setInterval arg w) = Some (next_timer w) \<and>
           next_timer (setInterval arg w) = Suc (next_timer w)"
  using assms
  by (auto simp: setInterval_def one_timer_def clearInterval_def window_setInterval_def Let_def
      split: option.splits)

lemma setInterval_frame:
  "sent (setInterval arg w) = sent w \<and> comm_live (setInterval arg w) = comm_live w \<and>
   m_interval (setInterval arg w) = m_interval w \<and> qcodes_state (setInterval arg w) = qcodes_state w \<and>
   view_class (setInterval arg w) = view_class w \<and> others (setInterval arg w) = others w \<and>
   el_classes (setInterval arg w) = el_classes w \<and> el_parent (setInterval arg w) = el_parent w \<and>
   output_area (setInterval arg w) = output_area w \<and> clear_disabled (setInterval arg w) = clear_disabled w"
  by (simp add: setInterval_def clearInterval_def window_setInterval_def Let_def split: option.splits)

lemma one_timer_setInterval: "one_timer w \<Longrightarrow> one_timer (setInterval arg w)"
  by (auto simp: setInterval_def one_timer_def clearInterval_def window_setInterval_def Let_def
      split: option.splits)

lemma one_timer_callback: "one_timer w \<Longrightarrow> one_timer (timer_callback w)"
  by (auto simp: timer_callback_def one_timer_def clearInterval_def send_def Let_def
      split: option.splits)

lemma one_timer_remove: "one_timer w \<Longrightarrow> one_timer (remove w)"
  by (auto simp: remove_def one_timer_def clearInterval_def split: option.splits)

lemma one_timer_cong:
  "timers w' = timers w \<Longrightarrow> v_updater w' = v_updater w \<Longrightarrow> next_timer w' = next_timer w \<Longrightarrow>
   one_timer w' = one_timer w"
  by (simp add: one_timer_def)

lemma update_ok:
  "\<exists>w1. display (m_message w) w = Inr w1 \<and> update w = Inr (setInterval None w1)"
  using display_ok [of "m_message w" w] by (auto simp: update_def)

lemma one_timer_update:
  assumes "one_timer w"
  shows "\<exists>w'. update w = Inr w' \<and> one_timer w'"
proof -
  obtain w1 where d: "display (m_message w) w = Inr w1"
    and keep: "timers w1 = timers w" "v_updater w1 = v_updater w" "next_timer w1 = next_timer w"
    using display_ok [of "m_message w" w] by blast
  from keep assms have "one_timer w1" by (simp add: one_timer_def)
  then have "one_timer (setInterval None w1)" by (rule one_timer_setInterval)
  with d show ?thesis by (simp add: update_def)
qed

lemma one_timer_step:
  assumes "one_timer w"
  shows "\<exists>w'. step e w = Inr w' \<and> one_timer w'"
proof (cases e)
  case (Timer_fires i)
  with assms show ?thesis by (simp add: one_timer_callback)
next
  case (Call_setInterval arg)
  with assms show ?thesis by (simp add: one_timer_setInterval)
next
  case Call_remove
  with assms show ?thesis by (simp add: one_timer_remove)
next
  case Call_update
  with one_timer_update [OF assms] show ?thesis by simp
next
  case (Model_change msg iv procs)
  from assms have "one_timer (w\<lparr>m_message := msg, m_interval := iv, m_processes := procs\<rparr>)"
    by (simp add: one_timer_def)
  from one_timer_update [OF this] Model_change show ?thesis by simp
next
  case Comm_lost
  with assms show ?thesis by (simp add: one_timer_def)
next
  case (Click_state b)
  with assms click_js_state_button [of b w] show ?thesis
    by (auto simp: one_timer_def)
next
  case Click_clear
  with assms show ?thesis by (simp add: one_timer_def click_clear_def)
next
  case Click_abort
  with assms show ?thesis by (simp add: one_timer_def click_abort_def send_def)
next
  case (Resize width height)
  with assms show ?thesis by (simp add: one_timer_def on_resize_def Let_def)
next
  case (Drag x y)
  with assms show ?thesis by (simp add: one_timer_def)
qed

lemma one_timer_run:
  "one_timer w \<Longrightarrow> \<exists>w'. run evs w = Inr w' \<and> one_timer w'"
proof (induction evs arbitrary: w)
  case Nil
  then show ?case by simp
next
  case (Cons e evs)
  from one_timer_step [OF Cons.prems, of e] obtain w1 where
    "step e w = Inr w1" "one_timer w1" by blast
  with Cons.IH [of w1] show ?case by simp
qed


lemma new_view_one_timer: "one_timer (new_view c)"
  by (simp add: one_timer_def new_view_def)

lemma polling_view: "setInterval (Some 2) (new_view UpdateView) =
    (new_view UpdateView)\<lparr>v_interval := 2, v_updater := Some 1, timers := [(1, Times 2 1000)], next_timer := 2\<rparr>"
  by (simp add: setInterval_def new_view_def window_setInterval_def)

lemma setInterval_v_interval:
  "v_interval (setInterval arg w) = (case arg of None \<Rightarrow> m_interval w | Some v \<Rightarrow> v)"
  by (simp add: setInterval_def clearInterval_def window_setInterval_def Let_def
      split: option.splits)

lemma setInterval_idem: "setInterval arg (setInterval arg w) = setInterval arg w"
proof (rule setInterval_noop)
  show "(case arg of None \<Rightarrow> m_interval (setInterval arg w) | Some v \<Rightarrow> v) =
        v_interval (setInterval arg w)"
    using setInterval_frame [of arg w] by (cases arg) (simp_all add: setInterval_v_interval)
qed

lemma setInterval_clears_old:
  assumes "one_timer w" and "(case arg of None \<Rightarrow> m_interval w | Some v \<Rightarrow> v) \<noteq> v_interval w"
  shows "fst ` set (timers w) \<inter> fst ` set (timers (setInterval arg w)) = {}"
  using assms
  by (auto simp: setInterval_def one_timer_def clearInterval_def window_setInterval_def Let_def
      split: option.splits)

lemma one_timer_length: "one_timer w \<Longrightarrow> length (timers w) \<le> 1"
  by (auto simp: one_timer_def)

lemma one_timer_fold_setInterval: "one_timer w \<Longrightarrow> one_timer (fold setInterval args w)"
  by (induction args arbitrary: w) (simp_all add: one_timer_setInterval)

lemma fresh_one_timer: "timers w = [] \<Longrightarrow> 0 < next_timer w \<Longrightarrow> one_timer w"
  by (simp add: one_timer_def)

lemma tick_sends:
  "i \<in> fst ` set (timers w) \<Longrightarrow>
     \<exists>w'. step (Timer_fires i) w = Inr w' \<and> sent w' = sent w @ [Myupdate]"
  by (simp add: timer_callback_def send_def clearInterval_def Let_def split: option.splits)

lemma tick_live:
  "i \<in> fst ` set (timers w) \<Longrightarrow> comm_live w \<Longrightarrow>
     \<exists>w'. step (Timer_fires i) w = Inr w' \<and> timers w' = timers w"
  by (simp add: timer_callback_def send_def Let_def)

lemma tick_dead:
  "one_timer w \<Longrightarrow> i \<in> fst ` set (timers w) \<Longrightarrow> \<not> comm_live w \<Longrightarrow>
     \<exists>w'. step (Timer_fires i) w = Inr w' \<and> timers w' = [] \<and> sent w' = sent w @ [Myupdate]"
  by (auto simp: timer_callback_def send_def clearInterval_def one_timer_def Let_def)

lemma update_same_interval:
  assumes "m_interval w = v_interval w"
  shows "\<exists>w'. update w = Inr w' \<and> timers w' = timers w \<and> sent w' = sent w"
proof -
  obtain w1 where d: "display (m_message w) w = Inr w1" "timers w1 = timers w"
    "v_interval w1 = v_interval w" "m_interval w1 = m_interval w" "sent w1 = sent w"
    using display_ok [of "m_message w" w] by blast
  with assms have "setInterval None w1 = w1" by (simp add: setInterval_noop)
  with d show ?thesis by (simp add: update_def)
qed

lemma quiet_step:
  assumes "timers w = []" and "\<not> changes_interval w e"
  shows "\<exists>w'. step e w = Inr w' \<and> timers w' = [] \<and> updates_sent w' = updates_sent w"
proof (cases e)
  case (Call_setInterval arg)
  with assms show ?thesis by (simp add: setInterval_noop)
next
  case Call_update
  with assms update_same_interval [of w] show ?thesis
    by (auto simp: updates_sent_def)
next
  case (Model_change msg iv procs)
  with assms update_same_interval [of "w\<lparr>m_message := msg, m_interval := iv, m_processes := procs\<rparr>"]
  show ?thesis by (auto simp: updates_sent_def)
next
  case (Click_state b)
  with assms click_js_state_button [of b w] show ?thesis
    by (auto simp: updates_sent_def)
qed (use assms in \<open>simp_all add: updates_sent_def remove_def clearInterval_def click_clear_def
    click_abort_def send_def on_resize_def Let_def split: option.splits\<close>)

lemma quiet_run:
  "timers w = [] \<Longrightarrow> settled evs w \<Longrightarrow>
     \<exists>w'. run evs w = Inr w' \<and> timers w' = [] \<and> updates_sent w' = updates_sent w"
proof (induction evs arbitrary: w)
  case Nil
  then show ?case by simp
next
  case (Cons e evs)
  then obtain w1 where w1: "step e w = Inr w1" "timers w1 = []" "updates_sent w1 = updates_sent w"
    using quiet_step [of w e] by auto
  with Cons.prems(2) have "settled evs w1" by simp
  from Cons.IH [OF w1(2) this] w1 show ?case by auto
qed

text \<open>
  C8. \<open>setInterval\<close> is idempotent and keeps at most one timer running. A call with the
  value \<open>_interval\<close> already has changes nothing (the running timer stays); a second call
  with the same argument changes nothing. A call with another value stops the running
  timer before it may start a new one: no timer that ran before the call runs after it,
  and at most one does. So, from a view that has started no timer, at most one timer runs
  after any sequence of calls of \<open>setInterval\<close>, and after any sequence of events.
\<close>

theorem setInterval_idempotent_one_timer:
  "setInterval arg (setInterval arg w) = setInterval arg w \<and>
   ((case arg of None \<Rightarrow> m_interval w | Some v \<Rightarrow> v) = v_interval w \<longrightarrow> setInterval arg w = w) \<and>
   (one_timer w \<and> (case arg of None \<Rightarrow> m_interval w | Some v \<Rightarrow> v) \<noteq> v_interval w \<longrightarrow>
      fst ` set (timers w) \<inter> fst ` set (timers (setInterval arg w)) = {} \<and>
      length (timers (setInterval arg w)) \<le> 1) \<and>
   (timers w = [] \<and> 0 < next_timer w \<longrightarrow>
      (\<forall>args. length (timers (fold setInterval args w)) \<le> 1) \<and>
      (\<forall>evs. \<exists>w'. run evs w = Inr w' \<and> length (timers w') \<le> 1))"
proof (intro conjI impI allI)
  show "setInterval arg (setInterval arg w) = setInterval arg w"
    by (rule setInterval_idem)
next
  assume "(case arg of None \<Rightarrow> m_interval w | Some v \<Rightarrow> v) = v_interval w"
  then show "setInterval arg w = w" by (rule setInterval_noop)
next
  assume "one_timer w \<and> (case arg of None \<Rightarrow> m_interval w | Some v \<Rightarrow> v) \<noteq> v_interval w"
  then show "fst ` set (timers w) \<inter> fst ` set (timers (setInterval arg w)) = {}"
    by (simp add: setInterval_clears_old)
next
  assume "one_timer w \<and> (case arg of None \<Rightarrow> m_interval w | Some v \<Rightarrow> v) \<noteq> v_interval w"
  then have "one_timer (setInterval arg w)" by (simp add: one_timer_setInterval)
  then show "length (timers (setInterval arg w)) \<le> 1" by (rule one_timer_length)
next
  fix args assume "timers w = [] \<and> 0 < next_timer w"
  then have "one_timer w" by (simp add: fresh_one_timer)
  then have "one_timer (fold setInterval args w)" by (rule one_timer_fold_setInterval)
  then show "length (timers (fold setInterval args w)) \<le> 1" by (rule one_timer_length)
next
  fix evs assume "timers w = [] \<and> 0 < next_timer w"
  then have "one_timer w" by (simp add: fresh_one_timer)
  from one_timer_run [OF this, of evs] show "\<exists>w'. run evs w = Inr w' \<and> length (timers w') \<le> 1"
    by (auto dest: one_timer_length)
qed

theorem setInterval_idempotent_one_timer_witness:
  "timers (new_view UpdateView) = [] \<and> 0 < next_timer (new_view UpdateView) \<and>
   timers (setInterval (Some 2) (new_view UpdateView)) = [(1, Times 2 1000)] \<and>
   setInterval (Some 2) (setInterval (Some 2) (new_view UpdateView)) =
     setInterval (Some 2) (new_view UpdateView) \<and>
   length (timers (fold setInterval [Some 2, None, Some 3] (new_view UpdateView))) \<le> 1 \<and>
   (\<exists>w'. run [Call_setInterval (Some 2), Timer_fires 1, Call_setInterval (Some 5)]
           (new_view UpdateView) = Inr w' \<and> length (timers w') \<le> 1)"
proof -
  have fresh: "timers (new_view UpdateView) = [] \<and> 0 < next_timer (new_view UpdateView)"
    by (simp add: new_view_def)
  have started: "timers (setInterval (Some 2) (new_view UpdateView)) = [(1, Times 2 1000)]"
    by (simp add: polling_view)
  note T = setInterval_idempotent_one_timer [of "Some 2" "new_view UpdateView"]
  from T have idem: "setInterval (Some 2) (setInterval (Some 2) (new_view UpdateView)) =
      setInterval (Some 2) (new_view UpdateView)"
    by (rule conjunct1)
  from T fresh have seqs:
    "(\<forall>args. length (timers (fold setInterval args (new_view UpdateView))) \<le> 1) \<and>
     (\<forall>evs. \<exists>w'. run evs (new_view UpdateView) = Inr w' \<and> length (timers w') \<le> 1)"
    by blast
  from seqs have calls:
    "length (timers (fold setInterval [Some 2, None, Some 3] (new_view UpdateView))) \<le> 1"
    by blast
  from seqs have events:
    "\<exists>w'. run [Call_setInterval (Some 2), Timer_fires 1, Call_setInterval (Some 5)]
           (new_view UpdateView) = Inr w' \<and> length (timers w') \<le> 1"
    by blast
  from fresh started idem calls events show ?thesis by blast
qed

lemma polling_state:
  "polling = (new_view UpdateView)\<lparr>v_interval := 2, v_updater := Some 1,
      timers := [(1, Times 2 1000)], next_timer := 2\<rparr>"
  by (simp add: polling_def polling_view)

lemma dead_tick: "step (Timer_fires 1) comm_dead = Inr stopped"
  by (simp add: stopped_def comm_dead_def polling_state timer_callback_def send_def
      clearInterval_def new_view_def Let_def)

lemma settled_stopped:
  "settled [Timer_fires 1, Click_abort, Call_setInterval (Some 2), Timer_fires 1, Call_remove] stopped"
  by (simp add: stopped_def comm_dead_def polling_state new_view_def click_abort_def
      send_def setInterval_def remove_def clearInterval_def)

lemma update_starts_timer:
  assumes "one_timer w" and "m_interval w \<noteq> v_interval w"
  shows "\<exists>w'. update w = Inr w' \<and> v_interval w' = m_interval w \<and>
     timers w' = (if m_interval w = 0 then [] else [(next_timer w, Times (m_interval w) 1000)])"
proof -
  obtain w1 where d: "display (m_message w) w = Inr w1" "timers w1 = timers w"
    "v_updater w1 = v_updater w" "next_timer w1 = next_timer w"
    "v_interval w1 = v_interval w" "m_interval w1 = m_interval w"
    using display_ok [of "m_message w" w] by blast
  from d assms have o: "one_timer w1" by (simp add: one_timer_def)
  from d assms have n: "(case None of None \<Rightarrow> m_interval w1 | Some v \<Rightarrow> v) = m_interval w"
    "m_interval w \<noteq> v_interval w1" by simp_all
  note c = setInterval_change [OF o n]
  have u: "update w = Inr (setInterval None w1)" using d(1) by (simp add: update_def)
  show ?thesis
    using u c d(4) by (cases "m_interval w = 0") simp_all
qed

text \<open>
  C2, as amended. The polling loop. \<open>update\<close>, and any call of \<open>setInterval\<close>, with an
  interval other than the one the view has starts one timer when the interval is not zero,
  with delay \<open>interval * 1000\<close> milliseconds, and none when it is zero. Every time the
  timer fires, the view sends one update message, and the timer keeps running while
  \<open>comm_live\<close> holds; a timer that was stopped does nothing. When the timer fires and
  \<open>comm_live\<close> is false, the message is sent, the flag is then tested and the timer
  stopped: from then on no timer runs and no update message is sent as long as no event
  changes the interval. (\<open>setInterval\<close> does not look at \<open>comm_live\<close>: a call with
  another interval that is not zero starts a new timer.)
\<close>

theorem polling_stops_when_comm_dead:
  "(one_timer w \<and> m_interval w \<noteq> v_interval w \<longrightarrow>
      (\<exists>w'. update w = Inr w' \<and> v_interval w' = m_interval w \<and>
         timers w' =
           (if m_interval w = 0 then [] else [(next_timer w, Times (m_interval w) 1000)]))) \<and>
   (one_timer w \<and> (case arg of None \<Rightarrow> m_interval w | Some x \<Rightarrow> x) = v \<and> v \<noteq> v_interval w \<longrightarrow>
      timers (setInterval arg w) = (if v = 0 then [] else [(next_timer w, Times v 1000)])) \<and>
   (i \<in> fst ` set (timers w) \<longrightarrow>
      (\<exists>w'. step (Timer_fires i) w = Inr w' \<and> sent w' = sent w @ [Myupdate] \<and>
            (comm_live w \<longrightarrow> timers w' = timers w))) \<and>
   (i \<notin> fst ` set (timers w) \<longrightarrow> step (Timer_fires i) w = Inr w) \<and>
   (one_timer w \<and> i \<in> fst ` set (timers w) \<and> \<not> comm_live w \<longrightarrow>
      (\<exists>w'. step (Timer_fires i) w = Inr w' \<and> timers w' = [] \<and>
         (\<forall>evs. settled evs w' \<longrightarrow>
            (\<exists>w''. run evs w' = Inr w'' \<and> timers w'' = [] \<and>
                  updates_sent w'' = updates_sent w'))))"
proof (intro conjI impI)
  assume "one_timer w \<and> m_interval w \<noteq> v_interval w"
  then show "\<exists>w'. update w = Inr w' \<and> v_interval w' = m_interval w \<and>
         timers w' =
           (if m_interval w = 0 then [] else [(next_timer w, Times (m_interval w) 1000)])"
    by (simp add: update_starts_timer)
next
  assume a: "one_timer w \<and> (case arg of None \<Rightarrow> m_interval w | Some x \<Rightarrow> x) = v \<and> v \<noteq> v_interval w"
  then show "timers (setInterval arg w) = (if v = 0 then [] else [(next_timer w, Times v 1000)])"
    using setInterval_change(2,3) [of w arg v] by auto
next
  assume i: "i \<in> fst ` set (timers w)"
  from tick_sends [OF i] obtain w' where
    w': "step (Timer_fires i) w = Inr w'" "sent w' = sent w @ [Myupdate]" by blast
  have "comm_live w \<longrightarrow> timers w' = timers w"
    using tick_live [OF i] w'(1) by auto
  with w' show "\<exists>w'. step (Timer_fires i) w = Inr w' \<and> sent w' = sent w @ [Myupdate] \<and>
            (comm_live w \<longrightarrow> timers w' = timers w)"
    by blast
next
  assume "i \<notin> fst ` set (timers w)"
  then show "step (Timer_fires i) w = Inr w" by simp
next
  assume a: "one_timer w \<and> i \<in> fst ` set (timers w) \<and> \<not> comm_live w"
  then obtain w' where w': "step (Timer_fires i) w = Inr w'" "timers w' = []"
    using tick_dead [of w i] by blast
  have "\<forall>evs. settled evs w' \<longrightarrow>
         (\<exists>w''. run evs w' = Inr w'' \<and> timers w'' = [] \<and> updates_sent w'' = updates_sent w')"
    using quiet_run [OF w'(2)] by blast
  with w' show "\<exists>w'. step (Timer_fires i) w = Inr w' \<and> timers w' = [] \<and>
         (\<forall>evs. settled evs w' \<longrightarrow>
            (\<exists>w''. run evs w' = Inr w'' \<and> timers w'' = [] \<and>
                  updates_sent w'' = updates_sent w'))"
    by blast
qed

theorem polling_stops_when_comm_dead_witness:
  "(\<exists>w'. update configured = Inr w' \<and> timers w' = [(1, Times 2 1000)]) \<and>
   timers (setInterval None configured) = [(1, Times 2 1000)] \<and>
   timers polling = [(1, Times 2 1000)] \<and>
   (\<exists>w'. step (Timer_fires 1) polling = Inr w' \<and> sent w' = sent polling @ [Myupdate] \<and>
      timers w' = timers polling) \<and>
   step (Timer_fires 7) polling = Inr polling \<and>
   step (Timer_fires 1) comm_dead = Inr stopped \<and> timers stopped = [] \<and>
   (\<exists>w''. run [Timer_fires 1, Click_abort, Call_setInterval (Some 2), Timer_fires 1, Call_remove]
            stopped = Inr w'' \<and>
      timers w'' = [] \<and> updates_sent w'' = updates_sent stopped)"
proof -
  note p = polling_state
  have ot: "one_timer (new_view UpdateView)" "one_timer polling" "one_timer comm_dead"
    "one_timer configured"
    by (simp_all add: one_timer_def p comm_dead_def new_view_def configured_def)
  have cf: "m_interval configured = 2" "v_interval configured = 0" "next_timer configured = 1"
    by (simp_all add: configured_def new_view_def)
  have t: "timers polling = [(1, Times 2 1000)]" "timers comm_dead = [(1, Times 2 1000)]"
    by (simp_all add: p comm_dead_def)
  have live: "comm_live polling" "\<not> comm_live comm_dead"
    by (simp_all add: p comm_dead_def new_view_def)
  from polling_stops_when_comm_dead [of configured None 2 1] ot(4) cf
  have upd: "\<exists>w'. update configured = Inr w' \<and> timers w' = [(1, Times 2 1000)]"
    and si: "timers (setInterval None configured) = [(1, Times 2 1000)]"
    by auto
  from polling_stops_when_comm_dead [of polling None 0 1] t live
  have tick: "\<exists>w'. step (Timer_fires 1) polling = Inr w' \<and> sent w' = sent polling @ [Myupdate] \<and>
      timers w' = timers polling"
    by simp
  from polling_stops_when_comm_dead [of polling None 0 7] t
  have stale: "step (Timer_fires 7) polling = Inr polling"
    by simp
  from polling_stops_when_comm_dead [of comm_dead None 0 1] ot t live dead_tick
  have after: "timers stopped = []"
    "\<forall>evs. settled evs stopped \<longrightarrow>
          (\<exists>w''. run evs stopped = Inr w'' \<and> timers w'' = [] \<and>
             updates_sent w'' = updates_sent stopped)"
    by auto
  from after(2) settled_stopped
  have "\<exists>w''. run [Timer_fires 1, Click_abort, Call_setInterval (Some 2), Timer_fires 1, Call_remove]
            stopped = Inr w'' \<and> timers w'' = [] \<and> updates_sent w'' = updates_sent stopped"
    by blast
  with upd si t(1) tick stale dead_tick after(1) show ?thesis by blast
qed

text \<open>
  C2 as stated fails: a view polls every 2 seconds, the connection is lost, the next firing
  sends a message and stops the timer; then \<open>setInterval(5)\<close> is called and the new timer
  fires: one more update message is sent after the connection was seen dead. The same
  happens on the script's own path, when the model changes its interval to 5 and the change
  handler \<open>update\<close> calls \<open>setInterval()\<close>.
\<close>

theorem polling_restarts_after_comm_dead_counterexample:
  "run [Call_setInterval (Some 2), Comm_lost, Timer_fires 1] (new_view UpdateView) = Inr stopped \<and>
   \<not> comm_live stopped \<and> timers stopped = [] \<and> updates_sent stopped = 1 \<and>
   run [Call_setInterval (Some 5), Timer_fires 2] stopped = Inr restarted \<and>
   \<not> comm_live restarted \<and> updates_sent restarted = 2 \<and>
   run [Model_change ''busy'' 5 '''', Timer_fires 2] stopped =
     Inr (restarted\<lparr>m_message := ''busy'', m_interval := 5, m_processes := '''',
           inner_html := ''busy''\<rparr>)"
  by (simp add: stopped_def restarted_def comm_dead_def polling_state new_view_def setInterval_def
      window_setInterval_def clearInterval_def timer_callback_def send_def updates_sent_def Let_def
      update_def display_def)

lemma state_name_ok: "s = state_name b \<Longrightarrow> s = ''docked'' \<or> s = ''minimized'' \<or> s = ''floated''"
  by (cases b) simp_all

lemma update_state:
  "\<exists>w'. update w = Inr w' \<and> view_class w' = view_class w \<and>
     (qcodes_state w' = qcodes_state w \<or> qcodes_state w' = Some ''docked'')"
proof -
  obtain w1 where d: "display (m_message w) w = Inr w1" "view_class w1 = view_class w"
    "qcodes_state w1 = qcodes_state w \<or> qcodes_state w1 = Some ''docked''"
    using display_ok [of "m_message w" w] by blast
  then show ?thesis
    using setInterval_frame [of None w1] by (simp add: update_def)
qed

lemma step_state:
  "\<exists>w'. step e w = Inr w' \<and> view_class w' = view_class w \<and>
     (qcodes_state w' = qcodes_state w \<or> panel_state_ok w')"
proof (cases e)
  case (Timer_fires i)
  then show ?thesis
    by (simp add: timer_callback_def send_def clearInterval_def Let_def split: option.splits)
next
  case (Call_setInterval arg)
  then show ?thesis using setInterval_frame [of arg w] by simp
next
  case Call_remove
  then show ?thesis by (simp add: remove_def clearInterval_def split: option.splits)
next
  case Call_update
  with update_state [of w] show ?thesis by (auto simp: panel_state_ok_def)
next
  case (Model_change msg iv procs)
  with update_state [of "w\<lparr>m_message := msg, m_interval := iv, m_processes := procs\<rparr>"]
  show ?thesis by (auto simp: panel_state_ok_def)
next
  case (Click_state b)
  with click_js_state_button [of b w] state_name_ok [of _ b] show ?thesis
    by (auto simp: panel_state_ok_def)
next
  case (Resize width height)
  then show ?thesis by (simp add: on_resize_def Let_def)
qed (simp_all add: click_clear_def click_abort_def send_def)

lemma run_state:
  "panel_state_ok w \<Longrightarrow> \<exists>w'. run evs w = Inr w' \<and> view_class w' = view_class w \<and> panel_state_ok w'"
proof (induction evs arbitrary: w)
  case Nil
  then show ?case by simp
next
  case (Cons e evs)
  from step_state [of e w] obtain w1 where
    w1: "step e w = Inr w1" "view_class w1 = view_class w"
        "qcodes_state w1 = qcodes_state w \<or> panel_state_ok w1" by blast
  with Cons.prems have "panel_state_ok w1" by (auto simp: panel_state_ok_def)
  from Cons.IH [OF this] w1 show ?case by auto
qed

lemma display_not_minimized:
  assumes "qcodes_state w \<noteq> Some ''minimized''"
  shows "\<exists>w'. display msg w = Inr w' \<and> qcodes_state w' = qcodes_state w \<and>
     view_class w' = view_class w \<and> others w' = others w \<and>
     el_classes w' = el_classes w \<and> el_parent w' = el_parent w \<and>
     el_left w' = el_left w \<and> el_top w' = el_top w"
  using assms
  by (cases "view_class w") (simp_all add: display_def display_subprocess_def Let_def)

lemma render_subprocess_ok:
  "\<exists>w'. render_subprocess w = Inr w' \<and> qcodes_state w' = Some ''docked'' \<and>
     view_class w' = view_class w \<and>
     others w' = filter (\<lambda>e. \<not> is_panel e) (others w) \<and>
     ''qcodes-output-view'' \<in> set (el_classes w') \<and> el_parent w' = el_parent w"
proof -
  let ?w3 = "w\<lparr>v_interval := 0,
      others := filter (\<lambda>e. \<not> is_panel e) (others w),
      el_classes := add_class ''qcodes-output-view'' (el_classes w),
      qcodes_state := Some ''docked'',
      subprocess_list := [], abort_disabled := True, clear_disabled := True,
      output_area := []\<rparr>"
  have r: "render_subprocess w = update ?w3"
    by (simp add: render_subprocess_def Let_def)
  have "qcodes_state ?w3 \<noteq> Some ''minimized''" by simp
  from display_not_minimized [OF this, of "m_message ?w3"] obtain w4 where
    w4: "display (m_message ?w3) ?w3 = Inr w4" "qcodes_state w4 = qcodes_state ?w3"
      "view_class w4 = view_class ?w3" "others w4 = others ?w3"
      "el_classes w4 = el_classes ?w3" "el_parent w4 = el_parent ?w3"
    by blast
  have u: "update ?w3 = Inr (setInterval None w4)"
    using w4(1) by (simp add: update_def)
  have cls: "''qcodes-output-view'' \<in> set (add_class ''qcodes-output-view'' (el_classes w))"
    by (simp add: add_class_def)
  show ?thesis
    using r u w4 cls setInterval_frame [of None w4] by simp
qed

lemma render_new_view: "render (new_view SubprocessView) = Inr rendered_panel"
  by (simp add: render_def render_subprocess_def update_def display_def display_subprocess_def
      setInterval_def new_view_def rendered_panel_def add_class_def indexOf_def)

lemma render_after_restart: "render after_restart = Inr rendered_panel"
  by (simp add: render_def render_subprocess_def update_def display_def display_subprocess_def
      setInterval_def new_view_def rendered_panel_def add_class_def indexOf_def after_restart_def
      is_panel_def)

lemma position_on_resize:
  "qcodes_state w = Some ''floated'' \<Longrightarrow>
     position_left (on_resize w) = min (position_left w) (inner_width w - 20) \<and>
     position_top (on_resize w) = min (position_top w) (inner_height w - 20) \<and>
     inner_width (on_resize w) = inner_width w \<and> inner_height (on_resize w) = inner_height w \<and>
     el_width (on_resize w) = el_width w \<and> el_height (on_resize w) = el_height w \<and>
     qcodes_state (on_resize w) = qcodes_state w"
  by (simp add: on_resize_def position_left_def position_top_def Let_def split: option.splits)

lemma click_floated: "step (Click_state Floated_button) rendered_panel = Inr floated_panel"
  by (simp add: floated_panel_def rendered_panel_def new_view_def click_js_state_def
      state_of_class_button [where b = Floated_button, simplified] add_class_def Let_def)

text \<open>
  C3. The panel has three states. \<open>render\<close> of a \<open>SubprocessView\<close> sets the attribute
  \<open>qcodes-state\<close> to \<open>docked\<close>, and after any sequence of events it is one of
  \<open>docked\<close>, \<open>minimized\<close> and \<open>floated\<close>. The handler of a \<open>js-state\<close> button reads
  from the \<open>className\<close> of the button the state its class names (\<open>minimized\<close> from
  \<open>qcodes-minimized\<close>, and so on), and a click on the button sets the attribute to it.
\<close>

theorem panel_three_states:
  "(view_class w0 = SubprocessView \<longrightarrow>
      (\<exists>w. render w0 = Inr w \<and> qcodes_state w = Some ''docked'' \<and>
         (\<forall>evs. \<exists>w'. run evs w = Inr w' \<and>
            (qcodes_state w' = Some ''docked'' \<or> qcodes_state w' = Some ''minimized'' \<or>
             qcodes_state w' = Some ''floated'')))) \<and>
   (view_class w = SubprocessView \<longrightarrow>
      state_of_class (className b) = Inr (state_name b) \<and>
      (\<exists>w'. step (Click_state b) w = Inr w' \<and> qcodes_state w' = Some (state_name b)))"
proof (intro conjI impI)
  assume c: "view_class w0 = SubprocessView"
  from render_subprocess_ok [of w0] obtain w where
    w: "render_subprocess w0 = Inr w" "qcodes_state w = Some ''docked''" by blast
  then have ok: "panel_state_ok w" by (simp add: panel_state_ok_def)
  have "\<forall>evs. \<exists>w'. run evs w = Inr w' \<and>
            (qcodes_state w' = Some ''docked'' \<or> qcodes_state w' = Some ''minimized'' \<or>
             qcodes_state w' = Some ''floated'')"
    using run_state [OF ok] by (auto simp: panel_state_ok_def)
  with w c show "\<exists>w. render w0 = Inr w \<and> qcodes_state w = Some ''docked'' \<and>
         (\<forall>evs. \<exists>w'. run evs w = Inr w' \<and>
            (qcodes_state w' = Some ''docked'' \<or> qcodes_state w' = Some ''minimized'' \<or>
             qcodes_state w' = Some ''floated''))"
    by (auto simp: render_def)
next
  show "state_of_class (className b) = Inr (state_name b)"
    by (rule state_of_class_button)
next
  assume "view_class w = SubprocessView"
  with click_js_state_button [of b w]
  show "\<exists>w'. step (Click_state b) w = Inr w' \<and> qcodes_state w' = Some (state_name b)"
    by auto
qed

theorem panel_three_states_witness:
  "view_class (new_view SubprocessView) = SubprocessView \<and>
   render (new_view SubprocessView) = Inr rendered_panel \<and>
   qcodes_state rendered_panel = Some ''docked'' \<and>
   (\<exists>w'. run [Click_state Minimized_button, Model_change ''done'' 0 [], Click_state Floated_button,
            Resize 300 200, Click_state Docked_button] rendered_panel = Inr w' \<and>
      (qcodes_state w' = Some ''docked'' \<or> qcodes_state w' = Some ''minimized'' \<or>
       qcodes_state w' = Some ''floated'')) \<and>
   state_of_class (className Floated_button) = Inr ''floated'' \<and>
   (\<exists>w'. step (Click_state Floated_button) rendered_panel = Inr w' \<and>
      qcodes_state w' = Some ''floated'')"
proof -
  have c: "view_class (new_view SubprocessView) = SubprocessView"
    "view_class rendered_panel = SubprocessView"
    by (simp_all add: new_view_def rendered_panel_def)
  note T = panel_three_states [of "new_view SubprocessView" rendered_panel Floated_button]
  from T c(1) render_new_view have
    r: "qcodes_state rendered_panel = Some ''docked''" and
    all: "\<forall>evs. \<exists>w'. run evs rendered_panel = Inr w' \<and>
            (qcodes_state w' = Some ''docked'' \<or> qcodes_state w' = Some ''minimized'' \<or>
             qcodes_state w' = Some ''floated'')"
    by auto
  from T c(2) have cl: "state_of_class (className Floated_button) = Inr ''floated''"
    "\<exists>w'. step (Click_state Floated_button) rendered_panel = Inr w' \<and>
      qcodes_state w' = Some ''floated''"
    by auto
  from all have "\<exists>w'. run [Click_state Minimized_button, Model_change ''done'' 0 [],
      Click_state Floated_button, Resize 300 200, Click_state Docked_button] rendered_panel = Inr w' \<and>
      (qcodes_state w' = Some ''docked'' \<or> qcodes_state w' = Some ''minimized'' \<or>
       qcodes_state w' = Some ''floated'')"
    by blast
  with c(1) render_new_view r cl show ?thesis by blast
qed



text \<open>
  C10, as amended. \<open>SubprocessView.render\<close> removes from the document every element of
  class \<open>qcodes-output-view\<close> other than the view's own and gives the view's own element
  that class, and it does not move that element. So immediately after \<open>render\<close> no other
  panel is in the document, also when a panel was left from before a restart of the
  kernel, and exactly one panel is in the document if the view's element is in it.
\<close>

theorem render_leaves_one_panel:
  "view_class w = SubprocessView \<longrightarrow>
     (\<exists>w'. render w = Inr w' \<and>
        others w' = filter (\<lambda>e. \<not> is_panel e) (others w) \<and>
        filter is_panel (others w') = [] \<and>
        ''qcodes-output-view'' \<in> set (el_classes w') \<and>
        el_parent w' = el_parent w \<and>
        (el_parent w \<noteq> Detached \<longrightarrow> panels_in_document w' = 1))"
proof
  assume c: "view_class w = SubprocessView"
  from render_subprocess_ok [of w] obtain w' where
    w': "render_subprocess w = Inr w'" "others w' = filter (\<lambda>e. \<not> is_panel e) (others w)"
      "''qcodes-output-view'' \<in> set (el_classes w')" "el_parent w' = el_parent w"
    by blast
  have none: "filter is_panel (others w') = []"
    by (simp add: w'(2) filter_empty_conv)
  have "el_parent w \<noteq> Detached \<longrightarrow> panels_in_document w' = 1"
    using w' none by (simp add: panels_in_document_def)
  with w' none c show "\<exists>w'. render w = Inr w' \<and>
        others w' = filter (\<lambda>e. \<not> is_panel e) (others w) \<and>
        filter is_panel (others w') = [] \<and>
        ''qcodes-output-view'' \<in> set (el_classes w') \<and>
        el_parent w' = el_parent w \<and>
        (el_parent w \<noteq> Detached \<longrightarrow> panels_in_document w' = 1)"
    by (auto simp: render_def)
qed

theorem render_leaves_one_panel_witness:
  "view_class displayed_after_restart = SubprocessView \<and>
   el_parent displayed_after_restart \<noteq> Detached \<and>
   filter is_panel (others displayed_after_restart) = [(7, [''qcodes-output-view''])] \<and>
   (\<exists>w'. render displayed_after_restart = Inr w' \<and> others w' = [] \<and>
      ''qcodes-output-view'' \<in> set (el_classes w') \<and> panels_in_document w' = 1)"
proof -
  have c: "view_class displayed_after_restart = SubprocessView"
    "el_parent displayed_after_restart \<noteq> Detached"
    "filter is_panel (others displayed_after_restart) = [(7, [''qcodes-output-view''])]"
    "filter (\<lambda>e. \<not> is_panel e) (others displayed_after_restart) = []"
    by (simp_all add: displayed_after_restart_def after_restart_def new_view_def is_panel_def)
  from render_leaves_one_panel [of displayed_after_restart] c
  have "\<exists>w'. render displayed_after_restart = Inr w' \<and> others w' = [] \<and>
      ''qcodes-output-view'' \<in> set (el_classes w') \<and> panels_in_document w' = 1"
    by auto
  with c(1-3) show ?thesis by blast
qed

text \<open>
  C10 as stated fails for a view whose element is not in the document when \<open>render\<close> runs
  (the framework inserts it afterwards: "some other bit of code resets the parent after
  render"): the panel from before the restart is removed, and no panel is in the document.
\<close>

theorem render_one_panel_in_document_counterexample:
  "view_class after_restart = SubprocessView \<and>
   panels_in_document after_restart = 1 \<and>
   render after_restart = Inr rendered_panel \<and>
   el_parent rendered_panel = Detached \<and>
   panels_in_document rendered_panel = 0"
  by (simp add: render_after_restart)
    (simp add: after_restart_def rendered_panel_def new_view_def panels_in_document_def is_panel_def)

lemma visible_iff:
  fixes L W e :: int
  assumes "L \<le> W - 20"
  shows "20 \<le> max 0 (min (L + e) W - max L 0) \<longleftrightarrow> 20 \<le> W \<and> 20 \<le> e \<and> 20 \<le> L + e"
  using assms by (auto simp: min_def max_def)

text \<open>
  C9, as amended. After a resize of the window while the panel is floated, the handler has
  moved the panel left and up as far as needed: its left offset is at most
  \<open>window.innerWidth - 20\<close> and its top offset at most \<open>window.innerHeight - 20\<close>. The
  handler does not clamp at the left and top edges. So at least 20 pixels of the panel are
  inside the viewport along an axis exactly when, along that axis, the viewport and the
  panel measure at least 20 pixels and at least 20 pixels of the panel lie beyond the left
  (top) edge of the viewport.
\<close>

theorem resize_clamps_right_and_bottom:
  "view_class w = SubprocessView \<and> qcodes_state w = Some ''floated'' \<longrightarrow>
     (\<exists>w'. step (Resize width height) w = Inr w' \<and>
        inner_width w' = width \<and> inner_height w' = height \<and>
        el_width w' = el_width w \<and> el_height w' = el_height w \<and>
        position_left w' = min (position_left w) (width - 20) \<and>
        position_top w' = min (position_top w) (height - 20) \<and>
        position_left w' \<le> width - 20 \<and> position_top w' \<le> height - 20 \<and>
        (20 \<le> visible_width w' \<longleftrightarrow>
           20 \<le> width \<and> 20 \<le> el_width w' \<and> 20 \<le> position_left w' + el_width w') \<and>
        (20 \<le> visible_height w' \<longleftrightarrow>
           20 \<le> height \<and> 20 \<le> el_height w' \<and> 20 \<le> position_top w' + el_height w'))"
proof
  assume a: "view_class w = SubprocessView \<and> qcodes_state w = Some ''floated''"
  let ?w1 = "w\<lparr>inner_width := width, inner_height := height\<rparr>"
  have s: "step (Resize width height) w = Inr (on_resize ?w1)"
    using a by (simp add: Let_def)
  have fl: "qcodes_state ?w1 = Some ''floated''" using a by simp
  note p = position_on_resize [OF fl]
  have pl: "position_left ?w1 = position_left w" and pt: "position_top ?w1 = position_top w"
    by (simp_all add: position_left_def position_top_def split: option.splits)
  have "inner_width (on_resize ?w1) = width" "inner_height (on_resize ?w1) = height"
    "el_width (on_resize ?w1) = el_width w" "el_height (on_resize ?w1) = el_height w"
    "position_left (on_resize ?w1) = min (position_left w) (width - 20)"
    "position_top (on_resize ?w1) = min (position_top w) (height - 20)"
    using p pl pt by simp_all
  moreover from this have "position_left (on_resize ?w1) \<le> width - 20"
    "position_top (on_resize ?w1) \<le> height - 20"
    by simp_all
  moreover from calculation have
    "20 \<le> visible_width (on_resize ?w1) \<longleftrightarrow>
       20 \<le> width \<and> 20 \<le> el_width (on_resize ?w1) \<and>
       20 \<le> position_left (on_resize ?w1) + el_width (on_resize ?w1)"
    unfolding visible_width_def by (simp only: visible_iff)
  moreover from calculation have
    "20 \<le> visible_height (on_resize ?w1) \<longleftrightarrow>
       20 \<le> height \<and> 20 \<le> el_height (on_resize ?w1) \<and>
       20 \<le> position_top (on_resize ?w1) + el_height (on_resize ?w1)"
    unfolding visible_height_def by (simp only: visible_iff)
  ultimately show "\<exists>w'. step (Resize width height) w = Inr w' \<and>
        inner_width w' = width \<and> inner_height w' = height \<and>
        el_width w' = el_width w \<and> el_height w' = el_height w \<and>
        position_left w' = min (position_left w) (width - 20) \<and>
        position_top w' = min (position_top w) (height - 20) \<and>
        position_left w' \<le> width - 20 \<and> position_top w' \<le> height - 20 \<and>
        (20 \<le> visible_width w' \<longleftrightarrow>
           20 \<le> width \<and> 20 \<le> el_width w' \<and> 20 \<le> position_left w' + el_width w') \<and>
        (20 \<le> visible_height w' \<longleftrightarrow>
           20 \<le> height \<and> 20 \<le> el_height w' \<and> 20 \<le> position_top w' + el_height w')"
    using s by blast
qed

theorem resize_clamps_right_and_bottom_witness:
  "view_class floated_panel = SubprocessView \<and> qcodes_state floated_panel = Some ''floated'' \<and>
   position_left floated_panel = 585 \<and> position_top floated_panel = 690 \<and>
   (\<exists>w'. step (Resize 300 200) floated_panel = Inr w' \<and>
      position_left w' = 280 \<and> position_top w' = 180 \<and>
      20 \<le> visible_width w' \<and> 20 \<le> visible_height w')"
proof -
  have f: "view_class floated_panel = SubprocessView \<and> qcodes_state floated_panel = Some ''floated''"
    and p: "position_left floated_panel = 585" "position_top floated_panel = 690"
    and sz: "el_width floated_panel = 400" "el_height floated_panel = 100"
    by (simp_all add: floated_panel_def rendered_panel_def new_view_def position_left_def
        position_top_def)
  from resize_clamps_right_and_bottom [of floated_panel 300 200] f obtain w' where
    w': "step (Resize 300 200) floated_panel = Inr w'"
      "el_width w' = el_width floated_panel" "el_height w' = el_height floated_panel"
      "position_left w' = min (position_left floated_panel) (300 - 20)"
      "position_top w' = min (position_top floated_panel) (200 - 20)"
      "20 \<le> visible_width w' \<longleftrightarrow>
         (20::int) \<le> 300 \<and> 20 \<le> el_width w' \<and> 20 \<le> position_left w' + el_width w'"
      "20 \<le> visible_height w' \<longleftrightarrow>
         (20::int) \<le> 200 \<and> 20 \<le> el_height w' \<and> 20 \<le> position_top w' + el_height w'"
    by blast
  from w'(2-5) p sz have pos: "position_left w' = 280" "position_top w' = 180"
    "el_width w' = 400" "el_height w' = 100"
    by simp_all
  with w'(6,7) have vis: "20 \<le> visible_width w'" "20 \<le> visible_height w'"
    by simp_all
  from f p w'(1) pos(1,2) vis show ?thesis by blast
qed

text \<open>
  C9 as stated fails: the panel is rendered, floated and dragged to the left until only 10
  of its 400 pixels are inside the window of 1000 by 800; a resize event leaves it there.
\<close>

theorem resize_does_not_keep_20_pixels_counterexample:
  "render (new_view SubprocessView) = Inr rendered_panel \<and>
   run [Click_state Floated_button, Drag (- 390) 100] rendered_panel = Inr floated_off_left \<and>
   view_class floated_off_left = SubprocessView \<and>
   qcodes_state floated_off_left = Some ''floated'' \<and>
   step (Resize 1000 800) floated_off_left = Inr floated_off_left \<and>
   position_left floated_off_left = - 390 \<and> el_width floated_off_left = 400 \<and>
   visible_width floated_off_left = 10 \<and>
   \<not> 20 \<le> visible_width floated_off_left"
  by (simp add: render_new_view)
    (simp add: floated_off_left_def rendered_panel_def new_view_def click_js_state_def
      state_of_class_button [where b = Floated_button, simplified] add_class_def on_resize_def position_left_def position_top_def
      visible_width_def Let_def)

end
